theory Spec2Isabelle
  imports Main "HOL-Library.Multiset"
begin

section \<open>Errors\<close>

text \<open>
  The library throws one exception class, \<open>GraphException\<close>, that carries a message.
  The messages of the source are the constructors of \<open>message\<close>:
  \<^item> \<open>Vertex_index_out_of_bounds\<close>: "Vertex index out of bounds" (Graph.cpp),
  \<^item> \<open>Queue_is_full\<close>, \<open>Queue_is_empty\<close>: "Queue is full", "Queue is empty" (Queue.cpp),
  \<^item> \<open>PQ_capacity_must_be_positive\<close>, \<open>PQ_is_full\<close>, \<open>PQ_is_empty\<close>:
    "Priority Queue capacity must be positive", "Priority Queue is full",
    "Priority Queue is empty" (PriorityQueue.cpp).

  Two more outcomes are not a \<open>GraphException\<close>: \<open>new T[n]\<close> with a negative \<open>n\<close> throws
  \<open>std::bad_array_new_length\<close> (the build uses C++11), and an array access out of range
  has undefined behaviour.
\<close>

datatype message =
    Vertex_index_out_of_bounds
  | Queue_is_full
  | Queue_is_empty
  | PQ_capacity_must_be_positive
  | PQ_is_full
  | PQ_is_empty

datatype error =
    GraphException message
  | Bad_array_new_length
  | UndefinedBehaviour

text \<open>The four error kinds of the specification, as predicates on what is thrown.\<close>

definition InvalidArgument :: "error \<Rightarrow> bool" where
  "InvalidArgument e = (e = GraphException PQ_capacity_must_be_positive)"

definition OutOfRange :: "error \<Rightarrow> bool" where
  "OutOfRange e = (e = GraphException Vertex_index_out_of_bounds)"

definition CapacityExceeded :: "error \<Rightarrow> bool" where
  "CapacityExceeded e = (e = GraphException Queue_is_full \<or> e = GraphException PQ_is_full)"

definition EmptyCollection :: "error \<Rightarrow> bool" where
  "EmptyCollection e = (e = GraphException Queue_is_empty \<or> e = GraphException PQ_is_empty)"

definition INT_MAX :: int where
  "INT_MAX = 2147483647"

definition INT_MIN :: int where
  "INT_MIN = - 2147483648"

text \<open>
  \<open>int\<close> is 32 bits wide. The program is built without overflow trapping, so the sum or
  difference of two \<open>int\<close> values that leaves \<open>INT_MIN .. INT_MAX\<close> wraps around:
  \<open>wrap_int\<close> reduces an integer to the \<open>int\<close> that the machine holds.
\<close>

definition wrap_int :: "int \<Rightarrow> int" where
  "wrap_int x = (x + 2147483648) mod 4294967296 - 2147483648"

lemma wrap_int_range: "INT_MIN \<le> wrap_int x \<and> wrap_int x \<le> INT_MAX"
  unfolding wrap_int_def INT_MIN_def INT_MAX_def by simp

lemma wrap_int_id: "INT_MIN \<le> x \<Longrightarrow> x \<le> INT_MAX \<Longrightarrow> wrap_int x = x"
  unfolding wrap_int_def INT_MIN_def INT_MAX_def by simp

section \<open>Graph (Graph.cpp)\<close>

text \<open>
  A \<open>Neighbor\<close> is a pair (vertex, weight). The singly linked list of \<open>Node\<close>s of a vertex
  is the list of its (vertex, weight) pairs from the head on. A stored vertex id is a
  natural number: \<open>addEdge\<close> is the only writer and validates both endpoints first.
\<close>

type_synonym Neighbor = "nat \<times> int"

record Graph =
  numVertices :: nat
  adjacencyList :: "Neighbor list list"

definition Graph_new :: "int \<Rightarrow> error + Graph" where
  "Graph_new vertices =
     (if vertices < 0 then Inl Bad_array_new_length
      else Inr \<lparr>numVertices = nat vertices, adjacencyList = replicate (nat vertices) []\<rparr>)"

definition getVertexCount :: "Graph \<Rightarrow> int" where
  "getVertexCount g = int (numVertices g)"

definition addEdge :: "Graph \<Rightarrow> int \<Rightarrow> int \<Rightarrow> int \<Rightarrow> error + Graph" where
  "addEdge g src dest weight =
     (if src < 0 \<or> src \<ge> int (numVertices g) \<or> dest < 0 \<or> dest \<ge> int (numVertices g)
      then Inl (GraphException Vertex_index_out_of_bounds)
      else
        let a1 = (adjacencyList g)[nat src := (nat dest, weight) # adjacencyList g ! nat src];
            a2 = a1[nat dest := (nat src, weight) # a1 ! nat dest]
        in Inr (g\<lparr>adjacencyList := a2\<rparr>))"

text \<open>The pointer-to-pointer loop of \<open>removeEdge\<close>: unlink the first node whose vertex matches.\<close>

fun remove_first :: "nat \<Rightarrow> Neighbor list \<Rightarrow> Neighbor list" where
  "remove_first d [] = []"
| "remove_first d (x # xs) = (if fst x = d then xs else x # remove_first d xs)"

definition removeEdge :: "Graph \<Rightarrow> int \<Rightarrow> int \<Rightarrow> error + Graph" where
  "removeEdge g src dest =
     (if src < 0 \<or> src \<ge> int (numVertices g) \<or> dest < 0 \<or> dest \<ge> int (numVertices g)
      then Inl (GraphException Vertex_index_out_of_bounds)
      else
        let a1 = (adjacencyList g)[nat src := remove_first (nat dest) (adjacencyList g ! nat src)];
            a2 = a1[nat dest := remove_first (nat src) (a1 ! nat dest)]
        in Inr (g\<lparr>adjacencyList := a2\<rparr>))"

definition getNeighbors :: "Graph \<Rightarrow> int \<Rightarrow> error + Neighbor list" where
  "getNeighbors g vertex =
     (if vertex < 0 \<or> vertex \<ge> int (numVertices g)
      then Inl (GraphException Vertex_index_out_of_bounds)
      else Inr (adjacencyList g ! nat vertex))"

text \<open>
  What every graph made by the constructor and the two mutators satisfies: one list per
  vertex, every stored vertex in range, every weight a C++ \<open>int\<close>.
\<close>

definition wf_graph :: "Graph \<Rightarrow> bool" where
  "wf_graph g =
     (length (adjacencyList g) = numVertices g \<and>
      list_all (list_all (\<lambda>(v, w). v < numVertices g \<and> INT_MIN \<le> w \<and> w \<le> INT_MAX))
        (adjacencyList g))"

section \<open>Queue (Queue.cpp)\<close>

text \<open>
  The circular buffer with the source's fields. \<open>count\<close> and \<open>capacity\<close> are never
  negative and are natural numbers here; \<open>rear\<close> starts at \<open>-1\<close> and stays an integer.
  The array is allocated uninitialised; no cell is read before \<open>enqueue\<close> has written it.
\<close>

record Queue =
  q_data :: "int list"
  q_front :: nat
  q_rear :: int
  q_capacity :: nat
  q_count :: nat

definition Queue_new :: "int \<Rightarrow> error + Queue" where
  "Queue_new sz =
     (if sz < 0 then Inl Bad_array_new_length
      else Inr \<lparr>q_data = replicate (nat sz) 0, q_front = 0, q_rear = - 1,
                q_capacity = nat sz, q_count = 0\<rparr>)"

definition isEmpty :: "Queue \<Rightarrow> bool" where
  "isEmpty q = (q_count q = 0)"

definition enqueue :: "Queue \<Rightarrow> int \<Rightarrow> error + Queue" where
  "enqueue q val =
     (if q_count q = q_capacity q then Inl (GraphException Queue_is_full)
      else
        let r = (q_rear q + 1) mod int (q_capacity q)
        in Inr (q\<lparr>q_rear := r, q_data := (q_data q)[nat r := val], q_count := q_count q + 1\<rparr>))"

definition dequeue :: "Queue \<Rightarrow> error + (int \<times> Queue)" where
  "dequeue q =
     (if isEmpty q then Inl (GraphException Queue_is_empty)
      else
        let val = q_data q ! q_front q
        in Inr (val, q\<lparr>q_front := (q_front q + 1) mod q_capacity q, q_count := q_count q - 1\<rparr>))"

section \<open>PriorityQueue (PriorityQueue.cpp)\<close>

text \<open>
  An \<open>Element\<close> is a pair (value, priority). \<open>size\<close> and \<open>capacity\<close> are natural numbers:
  the constructor rejects a capacity below 1 and \<open>size\<close> moves between 0 and \<open>capacity\<close>.
\<close>

type_synonym Element = "int \<times> int"

record PriorityQueue =
  pq_heap :: "Element list"
  pq_capacity :: nat
  pq_size :: nat

definition PriorityQueue_new :: "int \<Rightarrow> error + PriorityQueue" where
  "PriorityQueue_new cap =
     (if cap \<le> 0 then Inl (GraphException PQ_capacity_must_be_positive)
      else Inr \<lparr>pq_heap = replicate (nat cap) (0, 0), pq_capacity = nat cap, pq_size = 0\<rparr>)"

definition swap_list :: "'a list \<Rightarrow> nat \<Rightarrow> nat \<Rightarrow> 'a list" where
  "swap_list h i j = h[i := h ! j, j := h ! i]"

function heapifyUp :: "Element list \<Rightarrow> nat \<Rightarrow> Element list" where
  "heapifyUp h i =
     (if i > 0 \<and> snd (h ! i) < snd (h ! ((i - 1) div 2))
      then heapifyUp (swap_list h i ((i - 1) div 2)) ((i - 1) div 2)
      else h)"
  by pat_completeness auto
termination
  by (relation "measure (\<lambda>(h, i). i)") auto

function heapifyDown :: "Element list \<Rightarrow> nat \<Rightarrow> nat \<Rightarrow> Element list" where
  "heapifyDown h sz i =
     (let left = 2 * i + 1;
          right = 2 * i + 2;
          s1 = (if left < sz \<and> snd (h ! left) < snd (h ! i) then left else i);
          smallest = (if right < sz \<and> snd (h ! right) < snd (h ! s1) then right else s1)
      in if smallest \<noteq> i then heapifyDown (swap_list h i smallest) sz smallest else h)"
  by pat_completeness auto
termination
  by (relation "measure (\<lambda>(h, sz, i). sz - i)") (auto split: if_splits)

declare heapifyUp.simps [simp del] heapifyDown.simps [simp del]

definition pq_isEmpty :: "PriorityQueue \<Rightarrow> bool" where
  "pq_isEmpty pq = (pq_size pq = 0)"

definition insert_pq :: "PriorityQueue \<Rightarrow> int \<Rightarrow> int \<Rightarrow> error + PriorityQueue" where
  "insert_pq pq val priority =
     (if pq_size pq = pq_capacity pq then Inl (GraphException PQ_is_full)
      else Inr (pq\<lparr>pq_heap := heapifyUp ((pq_heap pq)[pq_size pq := (val, priority)]) (pq_size pq),
                    pq_size := pq_size pq + 1\<rparr>))"

definition extractMin :: "PriorityQueue \<Rightarrow> error + (int \<times> PriorityQueue)" where
  "extractMin pq =
     (if pq_isEmpty pq then Inl (GraphException PQ_is_empty)
      else
        let minValue = fst (pq_heap pq ! 0);
            sz = pq_size pq - 1;
            h = (pq_heap pq)[0 := pq_heap pq ! sz]
        in Inr (minValue, pq\<lparr>pq_heap := heapifyDown h sz 0, pq_size := sz\<rparr>))"

section \<open>UnionFind (UnionFind.cpp)\<close>

text \<open>
  \<open>find_rec\<close> is the recursion of \<open>find\<close> on the \<open>parent\<close> array, the only member it
  touches. On a cyclic \<open>parent\<close> array the source recurses for ever; the model then
  has no result (\<open>None\<close>). An element outside the arrays is undefined behaviour.
\<close>

record UnionFind =
  uf_parent :: "nat list"
  uf_rank :: "nat list"
  uf_size :: nat

definition UnionFind_new :: "int \<Rightarrow> error + UnionFind" where
  "UnionFind_new s =
     (if s < 0 then Inl Bad_array_new_length
      else Inr \<lparr>uf_parent = [0..<nat s], uf_rank = replicate (nat s) 0, uf_size = nat s\<rparr>)"

partial_function (option) find_rec :: "nat list \<Rightarrow> nat \<Rightarrow> (error + nat list \<times> nat) option" where
  "find_rec parent a =
     (if a \<ge> length parent then Some (Inl UndefinedBehaviour)
      else if parent ! a \<noteq> a then
        Option.bind (find_rec parent (parent ! a))
          (\<lambda>r. case r of
                 Inl e \<Rightarrow> Some (Inl e)
               | Inr (parent', root) \<Rightarrow> Some (Inr (parent'[a := root], root)))
      else Some (Inr (parent, a)))"

declare find_rec.simps [code]

definition find_uf :: "UnionFind \<Rightarrow> nat \<Rightarrow> (error + UnionFind \<times> nat) option" where
  "find_uf uf a =
     Option.bind (find_rec (uf_parent uf) a)
       (\<lambda>r. case r of
              Inl e \<Rightarrow> Some (Inl e)
            | Inr (parent', root) \<Rightarrow> Some (Inr (uf\<lparr>uf_parent := parent'\<rparr>, root)))"

definition unite :: "UnionFind \<Rightarrow> nat \<Rightarrow> nat \<Rightarrow> (error + UnionFind) option" where
  "unite uf a b =
     (case find_uf uf a of
        None \<Rightarrow> None
      | Some (Inl e) \<Rightarrow> Some (Inl e)
      | Some (Inr (uf1, rootA)) \<Rightarrow>
          (case find_uf uf1 b of
             None \<Rightarrow> None
           | Some (Inl e) \<Rightarrow> Some (Inl e)
           | Some (Inr (uf2, rootB)) \<Rightarrow>
               if rootA \<noteq> rootB then
                 (if uf_rank uf2 ! rootA < uf_rank uf2 ! rootB
                  then Some (Inr (uf2\<lparr>uf_parent := (uf_parent uf2)[rootA := rootB]\<rparr>))
                  else if uf_rank uf2 ! rootA > uf_rank uf2 ! rootB
                  then Some (Inr (uf2\<lparr>uf_parent := (uf_parent uf2)[rootB := rootA]\<rparr>))
                  else Some (Inr (uf2\<lparr>uf_parent := (uf_parent uf2)[rootB := rootA],
                                     uf_rank := (uf_rank uf2)[rootA := uf_rank uf2 ! rootA + 1]\<rparr>)))
               else Some (Inr uf2)))"


section \<open>Algorithms (Algorithms.cpp)\<close>

subsection \<open>bfs\<close>

text \<open>
  The loop state is \<open>(visited, tree, q, enq)\<close>. The last component is a history variable
  that the source does not have: the list of the values passed to \<open>q.enqueue\<close> so far.
  A read or write of \<open>visited\<close> outside the array is undefined behaviour.
\<close>

type_synonym bfs_state = "bool list \<times> Graph \<times> Queue \<times> int list"

fun bfs_for :: "int \<Rightarrow> Neighbor list \<Rightarrow> bfs_state \<Rightarrow> error + bfs_state" where
  "bfs_for u [] s = Inr s"
| "bfs_for u ((v, w) # ns) (visited, tree, q, enq) =
     (if v \<ge> length visited then Inl UndefinedBehaviour
      else if \<not> visited ! v then
        (case addEdge tree u (int v) w of
           Inl e \<Rightarrow> Inl e
         | Inr tree' \<Rightarrow>
             (case enqueue q (int v) of
                Inl e \<Rightarrow> Inl e
              | Inr q' \<Rightarrow> bfs_for u ns (visited[v := True], tree', q', enq @ [int v])))
      else bfs_for u ns (visited, tree, q, enq))"

definition unvisited :: "bool list \<Rightarrow> nat" where
  "unvisited visited = sum_list (map (\<lambda>b. if b then 0 else 1) visited)"

lemma unvisited_update:
  "v < length visited \<Longrightarrow> \<not> visited ! v \<Longrightarrow>
   Suc (unvisited (visited[v := True])) = unvisited visited"
  unfolding unvisited_def
  by (induction visited arbitrary: v) (auto simp: nth_Cons split: nat.splits)

lemma bfs_for_measure:
  "bfs_for u ns s = Inr s' \<Longrightarrow>
   2 * unvisited (fst s') + q_count (fst (snd (snd s'))) \<le> 2 * unvisited (fst s) + q_count (fst (snd (snd s)))"
proof (induction u ns s rule: bfs_for.induct)
  case (1 u s)
  then show ?case by simp
next
  case (2 u v w ns visited tree q enq)
  show ?case
  proof (cases "v \<ge> length visited")
    case True
    with 2(3) show ?thesis by simp
  next
    case inrange: False
    show ?thesis
    proof (cases "visited ! v")
      case True
      with 2 inrange show ?thesis by simp
    next
      case False
      from 2(3) inrange False obtain tree' q' where
        t: "addEdge tree u (int v) w = Inr tree'" and q: "enqueue q (int v) = Inr q'"
        and r: "bfs_for u ns (visited[v := True], tree', q', enq @ [int v]) = Inr s'"
        by (auto split: sum.splits)
      from 2(1)[OF inrange False t q r]
      have "2 * unvisited (fst s') + q_count (fst (snd (snd s')))
            \<le> 2 * unvisited (visited[v := True]) + q_count q'" by simp
      moreover from q have "q_count q' = q_count q + 1"
        by (auto simp: enqueue_def Let_def split: if_splits)
      moreover from unvisited_update[of v visited] inrange False
      have "Suc (unvisited (visited[v := True])) = unvisited visited" by simp
      ultimately show ?thesis by simp
    qed
  qed
qed

function bfs_loop :: "Graph \<Rightarrow> bfs_state \<Rightarrow> error + bfs_state" where
  "bfs_loop g (visited, tree, q, enq) =
     (if isEmpty q then Inr (visited, tree, q, enq)
      else
        (case dequeue q of
           Inl e \<Rightarrow> Inl e
         | Inr (u, q1) \<Rightarrow>
             (case getNeighbors g u of
                Inl e \<Rightarrow> Inl e
              | Inr ns \<Rightarrow>
                  (case bfs_for u ns (visited, tree, q1, enq) of
                     Inl e \<Rightarrow> Inl e
                   | Inr s' \<Rightarrow> bfs_loop g s'))))"
  by pat_completeness auto
termination
proof (relation "measure (\<lambda>(g, visited, tree, q, enq). 2 * unvisited visited + q_count q)", goal_cases)
  case 1
  then show ?case by simp
next
  case (2 g visited tree q enq x2 u q1 ns s')
  from 2(2,3) have "q_count q1 < q_count q"
    by (auto simp: dequeue_def isEmpty_def Let_def split: if_splits)
  moreover from 2 have "bfs_for u ns (visited, tree, q1, enq) = Inr s'" by simp
  from bfs_for_measure[OF this]
  have "2 * unvisited (fst s') + q_count (fst (snd (snd s'))) \<le> 2 * unvisited visited + q_count q1"
    by simp
  ultimately have "2 * unvisited (fst s') + q_count (fst (snd (snd s'))) < 2 * unvisited visited + q_count q"
    by linarith
  then show ?case
    by (simp add: case_prod_beta)
qed

declare bfs_loop.simps [simp del]

definition bfs_run :: "Graph \<Rightarrow> int \<Rightarrow> error + bfs_state" where
  "bfs_run g start =
     (let n = getVertexCount g
      in case Graph_new n of
           Inl e \<Rightarrow> Inl e
         | Inr tree \<Rightarrow>
             (case Queue_new n of
                Inl e \<Rightarrow> Inl e
              | Inr q \<Rightarrow>
                  if start < 0 \<or> start \<ge> n then Inl UndefinedBehaviour
                  else
                    (case enqueue q start of
                       Inl e \<Rightarrow> Inl e
                     | Inr q' \<Rightarrow>
                         bfs_loop g ((replicate (nat n) False)[nat start := True], tree, q', [start]))))"

definition bfs :: "Graph \<Rightarrow> int \<Rightarrow> error + Graph" where
  "bfs g start =
     (case bfs_run g start of
        Inl e \<Rightarrow> Inl e
      | Inr (visited, tree, q, enq) \<Rightarrow> Inr tree)"

subsection \<open>dfs\<close>

function dfs_visit :: "Graph \<Rightarrow> int \<Rightarrow> bool list \<times> Graph \<Rightarrow> error + bool list \<times> Graph"
  and dfs_for :: "Graph \<Rightarrow> int \<Rightarrow> Neighbor list \<Rightarrow> bool list \<times> Graph \<Rightarrow> error + bool list \<times> Graph"
where
  "dfs_visit g u (visited, tree) =
     (if u < 0 \<or> u \<ge> int (length visited) then Inl UndefinedBehaviour
      else
        (case getNeighbors g u of
           Inl e \<Rightarrow> Inl e
         | Inr ns \<Rightarrow> dfs_for g u ns (visited[nat u := True], tree)))"
| "dfs_for g u [] s = Inr s"
| "dfs_for g u ((v, w) # ns) (visited, tree) =
     (if v \<ge> length visited then Inl UndefinedBehaviour
      else if \<not> visited ! v then
        (case addEdge tree u (int v) w of
           Inl e \<Rightarrow> Inl e
         | Inr tree' \<Rightarrow>
             (case dfs_visit g (int v) (visited, tree') of
                Inl e \<Rightarrow> Inl e
              | Inr s' \<Rightarrow> dfs_for g u ns s'))
      else dfs_for g u ns (visited, tree))"
  by pat_completeness auto


lemma unvisited_update_le: "unvisited (visited[v := True]) \<le> unvisited visited"
  unfolding unvisited_def
  by (induction visited arbitrary: v) (auto simp: list_update_code split: nat.splits)

lemma dfs_unvisited_le:
  "dfs_visit_dfs_for_dom (Inl (g, u, s)) \<Longrightarrow> dfs_visit g u s = Inr s' \<Longrightarrow>
     unvisited (fst s') \<le> unvisited (fst s)"
  "dfs_visit_dfs_for_dom (Inr (g, u, ns, s)) \<Longrightarrow> dfs_for g u ns s = Inr s' \<Longrightarrow>
     unvisited (fst s') \<le> unvisited (fst s)"
proof (induction g u s and g u ns s arbitrary: s' and s' rule: dfs_visit_dfs_for.pinduct)
  case (1 g u visited tree)
  from 1(1,3) obtain ns where ns: "getNeighbors g u = Inr ns"
    and r: "dfs_for g u ns (visited[nat u := True], tree) = Inr s'"
    and u: "\<not> (u < 0 \<or> u \<ge> int (length visited))"
    by (auto simp: dfs_visit.psimps split: if_splits sum.splits)
  from 1(2)[OF u ns r] have "unvisited (fst s') \<le> unvisited (visited[nat u := True])" by simp
  with unvisited_update_le[of visited "nat u"] show ?case by simp
next
  case (2 g u s)
  then show ?case by (simp add: dfs_for.psimps)
next
  case (3 g u v w ns visited tree)
  show ?case
  proof (cases "v \<ge> length visited")
    case True
    with 3(1,5) show ?thesis by (simp add: dfs_for.psimps)
  next
    case inr: False
    show ?thesis
    proof (cases "visited ! v")
      case True
      with 3(1,5) inr have "dfs_for g u ns (visited, tree) = Inr s'"
        by (simp add: dfs_for.psimps)
      from 3(4)[OF inr _ this] True show ?thesis by simp
    next
      case False
      from 3(1,5) inr False obtain tree' s1 where
        t: "addEdge tree u (int v) w = Inr tree'"
        and v: "dfs_visit g (int v) (visited, tree') = Inr s1"
        and r: "dfs_for g u ns s1 = Inr s'"
        by (auto simp: dfs_for.psimps split: sum.splits)
      from 3(2)[OF inr False t v] have "unvisited (fst s1) \<le> unvisited visited" by simp
      moreover from 3(3)[OF inr False t v r] have "unvisited (fst s') \<le> unvisited (fst s1)" .
      ultimately show ?thesis by simp
    qed
  qed
qed

termination dfs_visit
proof (relation "inv_image (less_than <*lex*> less_than)
    (\<lambda>x. case x of
        Inl (g, u, visited, tree) \<Rightarrow>
          (unvisited (visited[nat u := True]), Suc (length (adjacencyList g ! nat u)))
      | Inr (g, u, ns, visited, tree) \<Rightarrow> (unvisited visited, length ns))", goal_cases)
  case 1
  then show ?case by (intro wf_inv_image wf_lex_prod wf_less_than)
next
  case (2 g u visited tree ns)
  then show ?case by (auto simp: getNeighbors_def split: if_splits)
next
  case (3 g u v w ns visited tree tree')
  then have "Suc (unvisited (visited[v := True])) = unvisited visited"
    using unvisited_update[of v visited] by simp
  then show ?case by simp
next
  case (4 g u v w ns visited tree tree' s')
  then have d: "dfs_visit_dfs_for_dom (Inl (g, int v, visited, tree'))"
    and r: "dfs_visit g (int v) (visited, tree') = Inr s'" by simp_all
  from dfs_unvisited_le(1)[OF d r] have "unvisited (fst s') \<le> unvisited visited"
    by simp
  then show ?case by (cases s') auto
next
  case (5 g u v w ns visited tree)
  then show ?case by simp
qed

definition dfs :: "Graph \<Rightarrow> int \<Rightarrow> error + Graph" where
  "dfs g start =
     (let n = getVertexCount g
      in case Graph_new n of
           Inl e \<Rightarrow> Inl e
         | Inr tree \<Rightarrow>
             (case dfs_visit g start (replicate (nat n) False, tree) of
                Inl e \<Rightarrow> Inl e
              | Inr (visited, tree') \<Rightarrow> Inr tree'))"

subsection \<open>dijkstra\<close>

text \<open>
  The loop state is \<open>(dist, prev, pq)\<close>. \<open>dist[u] + w\<close> and \<open>dist[v] - dist[prev[v]]\<close> are
  \<open>int\<close> operations: nothing is thrown when the result leaves \<open>INT_MIN .. INT_MAX\<close>, the
  value wraps around and the function goes on.
\<close>

type_synonym dijkstra_state = "int list \<times> int list \<times> PriorityQueue"

fun dijkstra_for :: "int \<Rightarrow> Neighbor list \<Rightarrow> dijkstra_state \<Rightarrow> error + dijkstra_state" where
  "dijkstra_for u [] s = Inr s"
| "dijkstra_for u ((v, w) # ns) (dist, prev, pq) =
     (if u < 0 \<or> u \<ge> int (length dist) \<or> v \<ge> length dist then Inl UndefinedBehaviour
      else
        let d = wrap_int (dist ! nat u + w)
        in if d < dist ! v then
             (case insert_pq pq (int v) d of
                Inl e \<Rightarrow> Inl e
              | Inr pq' \<Rightarrow> dijkstra_for u ns (dist[v := d], prev[v := u], pq'))
           else dijkstra_for u ns (dist, prev, pq))"

definition slack :: "int list \<Rightarrow> nat" where
  "slack dist = sum_list (map (\<lambda>d. nat (d - INT_MIN)) dist)"

lemma slack_update:
  "v < length dist \<Longrightarrow> INT_MIN \<le> d \<Longrightarrow> d < dist ! v \<Longrightarrow> slack (dist[v := d]) < slack dist"
  unfolding slack_def
  by (induction dist arbitrary: v) (auto simp: nth_Cons split: nat.splits)

lemma dijkstra_for_measure:
  "dijkstra_for u ns s = Inr s' \<Longrightarrow>
   2 * slack (fst s') + pq_size (snd (snd s')) \<le> 2 * slack (fst s) + pq_size (snd (snd s))"
proof (induction u ns s rule: dijkstra_for.induct)
  case (1 u s)
  then show ?case by simp
next
  case (2 u v w ns dist prev pq)
  let ?d = "wrap_int (dist ! nat u + w)"
  from 2(3) have rng: "\<not> (u < 0 \<or> u \<ge> int (length dist) \<or> v \<ge> length dist)"
    by (auto simp: Let_def split: if_splits)
  have lo: "INT_MIN \<le> ?d" by (simp add: wrap_int_range)
  show ?case
  proof (cases "?d < dist ! v")
    case True
    with 2(3) rng obtain pq' where
      i: "insert_pq pq (int v) ?d = Inr pq'"
      and r: "dijkstra_for u ns (dist[v := ?d], prev[v := u], pq') = Inr s'"
      by (auto simp: Let_def split: sum.splits)
    from 2(1)[OF rng refl True i r]
    have "2 * slack (fst s') + pq_size (snd (snd s')) \<le> 2 * slack (dist[v := ?d]) + pq_size pq'"
      by simp
    moreover from i have "pq_size pq' = pq_size pq + 1"
      by (auto simp: insert_pq_def split: if_splits)
    moreover from slack_update[of v dist ?d] rng lo True
    have "slack (dist[v := ?d]) < slack dist" by simp
    ultimately show ?thesis by simp
  next
    case False
    with 2(3) rng have "dijkstra_for u ns (dist, prev, pq) = Inr s'"
      by (simp add: Let_def)
    from 2(2)[OF rng refl False this] show ?thesis by simp
  qed
qed

function dijkstra_loop :: "Graph \<Rightarrow> dijkstra_state \<Rightarrow> error + dijkstra_state" where
  "dijkstra_loop g (dist, prev, pq) =
     (if pq_isEmpty pq then Inr (dist, prev, pq)
      else
        (case extractMin pq of
           Inl e \<Rightarrow> Inl e
         | Inr (u, pq1) \<Rightarrow>
             (case getNeighbors g u of
                Inl e \<Rightarrow> Inl e
              | Inr ns \<Rightarrow>
                  (case dijkstra_for u ns (dist, prev, pq1) of
                     Inl e \<Rightarrow> Inl e
                   | Inr s' \<Rightarrow> dijkstra_loop g s'))))"
  by pat_completeness auto
termination
proof (relation "measure (\<lambda>(g, dist, prev, pq). 2 * slack dist + pq_size pq)", goal_cases)
  case 1
  then show ?case by simp
next
  case (2 g dist prev pq x2 u pq1 ns s')
  then have "pq_size pq1 < pq_size pq"
    by (auto simp: extractMin_def pq_isEmpty_def Let_def split: if_splits)
  moreover from 2 have "dijkstra_for u ns (dist, prev, pq1) = Inr s'" by simp
  from dijkstra_for_measure[OF this]
  have "2 * slack (fst s') + pq_size (snd (snd s')) \<le> 2 * slack dist + pq_size pq1"
    by simp
  ultimately have "2 * slack (fst s') + pq_size (snd (snd s')) < 2 * slack dist + pq_size pq"
    by linarith
  then show ?case
    by (simp add: case_prod_beta)
qed

declare dijkstra_loop.simps [simp del]

fun dijkstra_tree :: "int list \<Rightarrow> int list \<Rightarrow> nat list \<Rightarrow> Graph \<Rightarrow> error + Graph" where
  "dijkstra_tree dist prev [] tree = Inr tree"
| "dijkstra_tree dist prev (v # vs) tree =
     (if prev ! v \<noteq> - 1 then
        (if prev ! v < 0 \<or> prev ! v \<ge> int (length dist) then Inl UndefinedBehaviour
         else
           let wt = wrap_int (dist ! v - dist ! nat (prev ! v))
           in case addEdge tree (prev ! v) (int v) wt of
                Inl e \<Rightarrow> Inl e
              | Inr tree' \<Rightarrow> dijkstra_tree dist prev vs tree')
      else dijkstra_tree dist prev vs tree)"

text \<open>\<open>dijkstra_run\<close> is the function up to the end of its \<open>while\<close> loop.\<close>

definition dijkstra_run :: "Graph \<Rightarrow> int \<Rightarrow> error + Graph \<times> dijkstra_state" where
  "dijkstra_run g start =
     (let n = getVertexCount g
      in case Graph_new n of
           Inl e \<Rightarrow> Inl e
         | Inr tree \<Rightarrow>
             if start < 0 \<or> start \<ge> n then Inl UndefinedBehaviour
             else
               (case PriorityQueue_new n of
                  Inl e \<Rightarrow> Inl e
                | Inr pq \<Rightarrow>
                    (case insert_pq pq start 0 of
                       Inl e \<Rightarrow> Inl e
                     | Inr pq' \<Rightarrow>
                         (case dijkstra_loop g
                                 ((replicate (nat n) INT_MAX)[nat start := 0],
                                  replicate (nat n) (- 1), pq') of
                            Inl e \<Rightarrow> Inl e
                          | Inr s \<Rightarrow> Inr (tree, s)))))"

definition dijkstra :: "Graph \<Rightarrow> int \<Rightarrow> error + Graph" where
  "dijkstra g start =
     (case dijkstra_run g start of
        Inl e \<Rightarrow> Inl e
      | Inr (tree, dist, prev, pq) \<Rightarrow>
          dijkstra_tree dist prev [0..<nat (getVertexCount g)] tree)"

subsection \<open>prim\<close>

text \<open>The loop state is \<open>(inMST, key, parent, pq)\<close>.\<close>

type_synonym prim_state = "bool list \<times> int list \<times> int list \<times> PriorityQueue"

fun prim_for :: "int \<Rightarrow> Neighbor list \<Rightarrow> prim_state \<Rightarrow> error + prim_state" where
  "prim_for u [] s = Inr s"
| "prim_for u ((v, w) # ns) (inMST, key, parent, pq) =
     (if v \<ge> length inMST \<or> v \<ge> length key then Inl UndefinedBehaviour
      else if \<not> inMST ! v \<and> w < key ! v then
        (case insert_pq pq (int v) w of
           Inl e \<Rightarrow> Inl e
         | Inr pq' \<Rightarrow> prim_for u ns (inMST, key[v := w], parent[v := u], pq'))
      else prim_for u ns (inMST, key, parent, pq))"

definition weights :: "Graph \<Rightarrow> int set" where
  "weights g = (\<Union>i < numVertices g. snd ` set (adjacencyList g ! i))"

definition key_slack :: "int set \<Rightarrow> int list \<Rightarrow> nat" where
  "key_slack W key = sum_list (map (\<lambda>k. card {w \<in> W. w < k}) key)"

lemma finite_weights: "finite (weights g)"
  by (simp add: weights_def)

lemma card_below_less:
  assumes "finite W" "w \<in> W" "w < (k::int)"
  shows "card {x \<in> W. x < w} < card {x \<in> W. x < k}"
proof (rule psubset_card_mono)
  show "finite {x \<in> W. x < k}" using assms(1) by simp
  show "{x \<in> W. x < w} \<subset> {x \<in> W. x < k}" using assms(2,3) by auto
qed

lemma key_slack_update:
  "finite W \<Longrightarrow> v < length key \<Longrightarrow> w \<in> W \<Longrightarrow> w < key ! v \<Longrightarrow>
   key_slack W (key[v := w]) < key_slack W key"
  unfolding key_slack_def
proof (induction key arbitrary: v)
  case Nil
  then show ?case by simp
next
  case (Cons k key)
  show ?case
  proof (cases v)
    case 0
    with Cons.prems card_below_less[of W w k] show ?thesis by simp
  next
    case (Suc v')
    with Cons.prems Cons.IH[of v'] show ?thesis by simp
  qed
qed

lemma prim_for_measure:
  "prim_for u ns s = Inr s' \<Longrightarrow> finite W \<Longrightarrow> snd ` set ns \<subseteq> W \<Longrightarrow>
   2 * key_slack W (fst (snd s')) + pq_size (snd (snd (snd s')))
     \<le> 2 * key_slack W (fst (snd s)) + pq_size (snd (snd (snd s)))"
proof (induction u ns s rule: prim_for.induct)
  case (1 u s)
  then show ?case by simp
next
  case (2 u v w ns inMST key parent pq)
  from 2(3) have rng: "\<not> (v \<ge> length inMST \<or> v \<ge> length key)"
    by (auto split: if_splits)
  from 2(5) have sub: "snd ` set ns \<subseteq> W" and w: "w \<in> W" by auto
  show ?case
  proof (cases "\<not> inMST ! v \<and> w < key ! v")
    case True
    with 2(3) rng obtain pq' where
      i: "insert_pq pq (int v) w = Inr pq'"
      and r: "prim_for u ns (inMST, key[v := w], parent[v := u], pq') = Inr s'"
      by (auto split: sum.splits)
    from 2(1)[OF rng True i r 2(4) sub]
    have "2 * key_slack W (fst (snd s')) + pq_size (snd (snd (snd s')))
          \<le> 2 * key_slack W (key[v := w]) + pq_size pq'" by simp
    moreover from i have "pq_size pq' = pq_size pq + 1"
      by (auto simp: insert_pq_def split: if_splits)
    moreover from key_slack_update[OF 2(4), of v key w] rng w True
    have "key_slack W (key[v := w]) < key_slack W key" by simp
    ultimately show ?thesis by simp
  next
    case False
    with 2(3) rng have "prim_for u ns (inMST, key, parent, pq) = Inr s'"
      by auto
    from 2(2)[OF rng False this 2(4) sub] show ?thesis by simp
  qed
qed

function prim_loop :: "Graph \<Rightarrow> prim_state \<Rightarrow> error + prim_state" where
  "prim_loop g (inMST, key, parent, pq) =
     (if pq_isEmpty pq then Inr (inMST, key, parent, pq)
      else
        (case extractMin pq of
           Inl e \<Rightarrow> Inl e
         | Inr (u, pq1) \<Rightarrow>
             if u < 0 \<or> u \<ge> int (length inMST) then Inl UndefinedBehaviour
             else
               (case getNeighbors g u of
                  Inl e \<Rightarrow> Inl e
                | Inr ns \<Rightarrow>
                    (case prim_for u ns (inMST[nat u := True], key, parent, pq1) of
                       Inl e \<Rightarrow> Inl e
                     | Inr s' \<Rightarrow> prim_loop g s'))))"
  by pat_completeness auto
termination
proof (relation "measure (\<lambda>(g, inMST, key, parent, pq). 2 * key_slack (weights g) key + pq_size pq)",
    goal_cases)
  case 1
  then show ?case by simp
next
  case (2 g inMST key parent pq x2 u pq1 ns s')
  then have "pq_size pq1 < pq_size pq"
    by (auto simp: extractMin_def pq_isEmpty_def Let_def split: if_splits)
  moreover from 2 have "prim_for u ns (inMST[nat u := True], key, parent, pq1) = Inr s'" by simp
  moreover have "snd ` set ns \<subseteq> weights g"
  proof -
    from 2 have "ns = adjacencyList g ! nat u" and "nat u < numVertices g"
      by (auto simp: getNeighbors_def split: if_splits)
    then show ?thesis unfolding weights_def by blast
  qed
  ultimately have "2 * key_slack (weights g) (fst (snd s')) + pq_size (snd (snd (snd s')))
      < 2 * key_slack (weights g) key + pq_size pq"
    using prim_for_measure[of u ns "(inMST[nat u := True], key, parent, pq1)" s' "weights g"]
      finite_weights[of g] by simp
  then show ?case
    by (simp add: case_prod_beta)
qed

declare prim_loop.simps [simp del]

fun prim_tree :: "int list \<Rightarrow> int list \<Rightarrow> nat list \<Rightarrow> Graph \<Rightarrow> error + Graph" where
  "prim_tree key parent [] tree = Inr tree"
| "prim_tree key parent (v # vs) tree =
     (if parent ! v \<noteq> - 1 then
        (case addEdge tree (parent ! v) (int v) (key ! v) of
           Inl e \<Rightarrow> Inl e
         | Inr tree' \<Rightarrow> prim_tree key parent vs tree')
      else prim_tree key parent vs tree)"

text \<open>\<open>prim_run\<close> is the function up to the end of its \<open>while\<close> loop.\<close>

definition prim_run :: "Graph \<Rightarrow> error + Graph \<times> prim_state" where
  "prim_run g =
     (let n = getVertexCount g
      in case Graph_new n of
           Inl e \<Rightarrow> Inl e
         | Inr tree \<Rightarrow>
             if n = 0 then Inl UndefinedBehaviour
             else
               (case PriorityQueue_new n of
                  Inl e \<Rightarrow> Inl e
                | Inr pq \<Rightarrow>
                    (case insert_pq pq 0 0 of
                       Inl e \<Rightarrow> Inl e
                     | Inr pq' \<Rightarrow>
                         (case prim_loop g
                                 (replicate (nat n) False,
                                  (replicate (nat n) INT_MAX)[0 := 0],
                                  replicate (nat n) (- 1), pq') of
                            Inl e \<Rightarrow> Inl e
                          | Inr s \<Rightarrow> Inr (tree, s)))))"

definition prim :: "Graph \<Rightarrow> error + Graph" where
  "prim g =
     (case prim_run g of
        Inl e \<Rightarrow> Inl e
      | Inr (tree, inMST, key, parent, pq) \<Rightarrow>
          prim_tree key parent [1..<nat (getVertexCount g)] tree)"

subsection \<open>kruskal\<close>

text \<open>
  An \<open>Edge\<close> is the triple \<open>(w, u, v)\<close>. \<open>edges\<close> is the filled prefix of the array
  \<open>edges[500]\<close>; storing a 501st edge is undefined behaviour.
\<close>

type_synonym Edge = "int \<times> nat \<times> nat"

fun collect_for :: "nat \<Rightarrow> Neighbor list \<Rightarrow> Edge list \<Rightarrow> error + Edge list" where
  "collect_for u [] edges = Inr edges"
| "collect_for u ((v, w) # ns) edges =
     (if u < v then
        (if length edges \<ge> 500 then Inl UndefinedBehaviour
         else collect_for u ns (edges @ [(w, u, v)]))
      else collect_for u ns edges)"

fun collect_edges :: "Graph \<Rightarrow> nat list \<Rightarrow> Edge list \<Rightarrow> error + Edge list" where
  "collect_edges g [] edges = Inr edges"
| "collect_edges g (u # us) edges =
     (case getNeighbors g (int u) of
        Inl e \<Rightarrow> Inl e
      | Inr ns \<Rightarrow>
          (case collect_for u ns edges of
             Inl e \<Rightarrow> Inl e
           | Inr edges' \<Rightarrow> collect_edges g us edges'))"

fun sort_inner :: "nat \<Rightarrow> nat list \<Rightarrow> Edge list \<Rightarrow> Edge list" where
  "sort_inner i [] edges = edges"
| "sort_inner i (j # js) edges =
     (if fst (edges ! j) < fst (edges ! i) then sort_inner i js (swap_list edges i j)
      else sort_inner i js edges)"

fun sort_outer :: "nat list \<Rightarrow> Edge list \<Rightarrow> Edge list" where
  "sort_outer [] edges = edges"
| "sort_outer (i # is) edges = sort_outer is (sort_inner i [i + 1..<length edges] edges)"

definition bubble_sort :: "Edge list \<Rightarrow> Edge list" where
  "bubble_sort edges = sort_outer [0..<length edges] edges"

fun kruskal_loop :: "Edge list \<Rightarrow> Graph \<times> UnionFind \<Rightarrow> (error + Graph \<times> UnionFind) option" where
  "kruskal_loop [] s = Some (Inr s)"
| "kruskal_loop ((w, u, v) # es) (tree, uf) =
     (case find_uf uf u of
        None \<Rightarrow> None
      | Some (Inl e) \<Rightarrow> Some (Inl e)
      | Some (Inr (uf1, ru)) \<Rightarrow>
          (case find_uf uf1 v of
             None \<Rightarrow> None
           | Some (Inl e) \<Rightarrow> Some (Inl e)
           | Some (Inr (uf2, rv)) \<Rightarrow>
               if ru \<noteq> rv then
                 (case addEdge tree (int u) (int v) w of
                    Inl e \<Rightarrow> Some (Inl e)
                  | Inr tree' \<Rightarrow>
                      (case unite uf2 u v of
                         None \<Rightarrow> None
                       | Some (Inl e) \<Rightarrow> Some (Inl e)
                       | Some (Inr uf3) \<Rightarrow> kruskal_loop es (tree', uf3)))
               else kruskal_loop es (tree, uf2)))"

definition kruskal :: "Graph \<Rightarrow> (error + Graph) option" where
  "kruskal g =
     (let n = getVertexCount g
      in case Graph_new n of
           Inl e \<Rightarrow> Some (Inl e)
         | Inr tree \<Rightarrow>
             (case UnionFind_new n of
                Inl e \<Rightarrow> Some (Inl e)
              | Inr uf \<Rightarrow>
                  (case collect_edges g [0..<nat n] [] of
                     Inl e \<Rightarrow> Some (Inl e)
                   | Inr edges \<Rightarrow>
                       (case kruskal_loop (bubble_sort edges) (tree, uf) of
                          None \<Rightarrow> None
                        | Some (Inl e) \<Rightarrow> Some (Inl e)
                        | Some (Inr (tree', uf')) \<Rightarrow> Some (Inr tree')))))"


section \<open>Building and measuring graphs\<close>

text \<open>
  \<open>graph_of_edges n es\<close> is what a caller gets from \<open>Graph g(n)\<close> followed by one
  \<open>g.addEdge(u, v, w)\<close> for each \<open>(u, v, w)\<close> of \<open>es\<close>, in order.
\<close>

fun addEdges :: "Graph \<Rightarrow> (int \<times> int \<times> int) list \<Rightarrow> error + Graph" where
  "addEdges g [] = Inr g"
| "addEdges g ((u, v, w) # es) =
     (case addEdge g u v w of Inl e \<Rightarrow> Inl e | Inr g' \<Rightarrow> addEdges g' es)"

definition graph_of_edges :: "int \<Rightarrow> (int \<times> int \<times> int) list \<Rightarrow> error + Graph" where
  "graph_of_edges n es = (case Graph_new n of Inl e \<Rightarrow> Inl e | Inr g \<Rightarrow> addEdges g es)"

text \<open>The number of adjacency entries summed over all vertices, as the tests count it.\<close>

definition entry_count :: "Graph \<Rightarrow> nat" where
  "entry_count g = sum_list (map length (adjacencyList g))"

definition nonneg_weights :: "Graph \<Rightarrow> bool" where
  "nonneg_weights g = list_all (list_all (\<lambda>(v, w). 0 \<le> w)) (adjacencyList g)"

text \<open>The reference triangle of the tests and the tree both MST algorithms return on it.\<close>

definition triangle :: Graph where
  "triangle =
     \<lparr>numVertices = 3,
      adjacencyList = [[(2, 5), (1, 1)], [(2, 2), (0, 1)], [(0, 5), (1, 2)]]\<rparr>"

definition triangle_mst :: Graph where
  "triangle_mst =
     \<lparr>numVertices = 3, adjacencyList = [[(1, 1)], [(2, 2), (0, 1)], [(1, 2)]]\<rparr>"

text \<open>
  A connected graph on five vertices: vertex 0 is joined to 1 by a light edge and to 2, 3, 4
  by heavy ones, vertex 1 is joined to 2, 3, 4 by light edges.
\<close>

definition hub5 :: Graph where
  "hub5 =
     \<lparr>numVertices = 5,
      adjacencyList =
        [[(4, 10), (3, 10), (2, 10), (1, 1)],
         [(4, 1), (3, 1), (2, 1), (0, 1)],
         [(1, 1), (0, 10)],
         [(1, 1), (0, 10)],
         [(1, 1), (0, 10)]]\<rparr>"

section \<open>PriorityQueue: the heap order\<close>

text \<open>
  \<open>heap_order h n\<close>: in the first \<open>n\<close> cells of \<open>h\<close> no element has a smaller priority
  than its parent; \<open>pq_invariant\<close> adds that the array has \<open>capacity\<close> cells and
  \<open>size \<le> capacity\<close>.
\<close>

definition heap_order :: "Element list \<Rightarrow> nat \<Rightarrow> bool" where
  "heap_order h n =
     list_all (\<lambda>i. (2 * i + 1 < n \<longrightarrow> snd (h ! i) \<le> snd (h ! (2 * i + 1))) \<and>
                   (2 * i + 2 < n \<longrightarrow> snd (h ! i) \<le> snd (h ! (2 * i + 2)))) [0..<n]"

definition pq_invariant :: "PriorityQueue \<Rightarrow> bool" where
  "pq_invariant pq =
     (length (pq_heap pq) = pq_capacity pq \<and> pq_size pq \<le> pq_capacity pq \<and>
      heap_order (pq_heap pq) (pq_size pq))"

definition parent_le :: "Element list \<Rightarrow> nat \<Rightarrow> bool" where
  "parent_le h j = (snd (h ! ((j - 1) div 2)) \<le> snd (h ! j))"

lemma heap_order_parent:
  "heap_order h n \<longleftrightarrow> (\<forall>j. 0 < j \<and> j < n \<longrightarrow> parent_le h j)"
proof
  assume ho: "heap_order h n"
  show "\<forall>j. 0 < j \<and> j < n \<longrightarrow> parent_le h j"
  proof (intro allI impI)
    fix j assume j: "0 < j \<and> j < n"
    let ?i = "(j - 1) div 2"
    from j have i: "?i < n" by arith
    from j have "j = 2 * ?i + 1 \<or> j = 2 * ?i + 2" by arith
    moreover from ho i have
      "(2 * ?i + 1 < n \<longrightarrow> snd (h ! ?i) \<le> snd (h ! (2 * ?i + 1))) \<and>
       (2 * ?i + 2 < n \<longrightarrow> snd (h ! ?i) \<le> snd (h ! (2 * ?i + 2)))"
      by (simp add: heap_order_def list_all_iff)
    ultimately show "parent_le h j"
      using j unfolding parent_le_def by metis
  qed
next
  assume p: "\<forall>j. 0 < j \<and> j < n \<longrightarrow> parent_le h j"
  show "heap_order h n"
    unfolding heap_order_def list_all_iff
  proof (intro ballI conjI impI)
    fix i assume "2 * i + 1 < n"
    with p have "parent_le h (2 * i + 1)" by simp
    then show "snd (h ! i) \<le> snd (h ! (2 * i + 1))" by (simp add: parent_le_def)
  next
    fix i assume "2 * i + 2 < n"
    with p have "parent_le h (2 * i + 2)" by simp
    moreover have "(2 * i + 2 - 1) div 2 = i" by arith
    ultimately show "snd (h ! i) \<le> snd (h ! (2 * i + 2))" by (simp add: parent_le_def)
  qed
qed

lemma length_swap_list [simp]: "length (swap_list h i j) = length h"
  by (simp add: swap_list_def)

lemma swap_list_nth:
  "i < length h \<Longrightarrow> j < length h \<Longrightarrow>
   swap_list h i j ! k = (if k = j then h ! i else if k = i then h ! j else h ! k)"
  by (auto simp: swap_list_def nth_list_update)

lemma mset_take_swap_list:
  "i < n \<Longrightarrow> j < n \<Longrightarrow> n \<le> length h \<Longrightarrow> mset (take n (swap_list h i j)) = mset (take n h)"
proof -
  assume a: "i < n" "j < n" "n \<le> length h"
  have "take n (swap_list h i j) = (take n h)[i := take n h ! j, j := take n h ! i]"
    using a by (simp add: swap_list_def take_update_swap)
  moreover have "mset ((take n h)[i := take n h ! j, j := take n h ! i]) = mset (take n h)"
    using a mset_swap[of j "take n h" i] by simp
  ultimately show ?thesis by simp
qed

subsection \<open>heapifyUp\<close>

definition up_pre :: "Element list \<Rightarrow> nat \<Rightarrow> nat \<Rightarrow> bool" where
  "up_pre h n i =
     (i < n \<and> n \<le> length h \<and>
      (\<forall>j. 0 < j \<and> j < n \<and> j \<noteq> i \<longrightarrow> parent_le h j) \<and>
      (\<forall>j. 0 < j \<and> j < n \<and> (j - 1) div 2 = i \<and> 0 < i \<longrightarrow>
           snd (h ! ((i - 1) div 2)) \<le> snd (h ! j)))"

lemma up_pre_step:
  assumes pre: "up_pre h n i" and i: "0 < i" and lt: "snd (h ! i) < snd (h ! ((i - 1) div 2))"
  shows "up_pre (swap_list h i ((i - 1) div 2)) n ((i - 1) div 2)"
proof -
  define p where "p = (i - 1) div 2"
  define h' where "h' = swap_list h i p"
  define par where "par = (\<lambda>j::nat. (j - 1) div 2)"
  have par_lt: "\<And>j. 0 < j \<Longrightarrow> par j < j" unfolding par_def by arith
  from pre have in': "i < n" and nl: "n \<le> length h"
    and A: "\<And>j. 0 < j \<Longrightarrow> j < n \<Longrightarrow> j \<noteq> i \<Longrightarrow> snd (h ! par j) \<le> snd (h ! j)"
    and B: "\<And>j. 0 < j \<Longrightarrow> j < n \<Longrightarrow> par j = i \<Longrightarrow> snd (h ! p) \<le> snd (h ! j)"
    using i by (auto simp: up_pre_def parent_le_def p_def par_def)
  have pp: "p = par i" by (simp add: p_def par_def)
  have pi: "p < i" using par_lt[OF i] pp by simp
  have lt': "snd (h ! i) < snd (h ! p)" using lt by (simp add: p_def)
  have il: "i < length h" and pl: "p < length h" using in' nl pi by auto
  have nth: "\<And>k. h' ! k = (if k = p then h ! i else if k = i then h ! p else h ! k)"
    unfolding h'_def using swap_list_nth[OF il pl] by simp
  have C: "snd (h' ! par j) \<le> snd (h' ! j)" if j: "0 < j" "j < n" "j \<noteq> p" for j
  proof (cases "j = i")
    case True
    with lt' pi pp show ?thesis by (simp add: nth)
  next
    case False
    from A[OF j(1,2) False] have pj: "snd (h ! par j) \<le> snd (h ! j)" .
    show ?thesis
    proof (cases "par j = i")
      case True
      from B[OF j(1,2) True] show ?thesis using True False j(3) pi
        by (simp add: nth)
    next
      case qi: False
      show ?thesis
      proof (cases "par j = p")
        case True
        with pj lt' have "snd (h ! i) \<le> snd (h ! j)" by simp
        with True False j(3) qi show ?thesis by (simp add: nth)
      next
        case qp: False
        with pj False j(3) qi show ?thesis by (simp add: nth)
      qed
    qed
  qed
  have D: "snd (h' ! par p) \<le> snd (h' ! j)"
    if j: "0 < j" "j < n" "par j = p" "0 < p" for j
  proof -
    have gp: "par p < p" using par_lt[OF j(4)] .
    have pn: "p < n" using pi in' by simp
    from A[OF j(4) pn] pi have gpp: "snd (h ! par p) \<le> snd (h ! p)" by simp
    from par_lt[OF j(1)] j(3) have jp: "p < j" by simp
    show ?thesis
    proof (cases "j = i")
      case True
      with gpp gp pi show ?thesis by (simp add: nth)
    next
      case False
      from A[OF j(1,2) False] j(3) have "snd (h ! p) \<le> snd (h ! j)" by simp
      with gpp have "snd (h ! par p) \<le> snd (h ! j)" by simp
      with False jp gp pi show ?thesis by (simp add: nth)
    qed
  qed
  have "up_pre h' n p"
    unfolding up_pre_def parent_le_def using pi in' nl C D
    by (auto simp: par_def h'_def)
  then show ?thesis by (simp add: h'_def p_def)
qed

lemma heapifyUp_heap_order:
  "up_pre h n i \<Longrightarrow> heap_order (heapifyUp h i) n"
proof (induction h i rule: heapifyUp.induct)
  case (1 h i)
  show ?case
  proof (cases "i > 0 \<and> snd (h ! i) < snd (h ! ((i - 1) div 2))")
    case True
    then have "up_pre (swap_list h i ((i - 1) div 2)) n ((i - 1) div 2)"
      using up_pre_step[OF "1.prems"] by simp
    from "1.IH"[OF True this] True show ?thesis
      by (subst heapifyUp.simps) simp
  next
    case False
    have "\<forall>j. 0 < j \<and> j < n \<longrightarrow> parent_le h j"
    proof (intro allI impI)
      fix j assume j: "0 < j \<and> j < n"
      show "parent_le h j"
      proof (cases "j = i")
        case True
        with False j show ?thesis by (auto simp: parent_le_def)
      next
        case False
        with "1.prems" j show ?thesis by (auto simp: up_pre_def)
      qed
    qed
    then have "heap_order h n" by (simp add: heap_order_parent)
    with False show ?thesis by (subst heapifyUp.simps) auto
  qed
qed

lemma heapifyUp_length [simp]: "length (heapifyUp h i) = length h"
  by (induction h i rule: heapifyUp.induct) (subst heapifyUp.simps, simp)

lemma heapifyUp_mset:
  "i < n \<Longrightarrow> n \<le> length h \<Longrightarrow> mset (take n (heapifyUp h i)) = mset (take n h)"
proof (induction h i rule: heapifyUp.induct)
  case (1 h i)
  show ?case
  proof (cases "i > 0 \<and> snd (h ! i) < snd (h ! ((i - 1) div 2))")
    case True
    then have p: "(i - 1) div 2 < n" using "1.prems" by arith
    from "1.IH"[OF True p] "1.prems"
    have "mset (take n (heapifyUp (swap_list h i ((i - 1) div 2)) ((i - 1) div 2)))
          = mset (take n (swap_list h i ((i - 1) div 2)))" by simp
    also have "\<dots> = mset (take n h)"
      using mset_take_swap_list[OF "1.prems"(1) p "1.prems"(2)] .
    finally show ?thesis using True by (subst heapifyUp.simps) simp
  next
    case False
    then show ?thesis by (subst heapifyUp.simps) auto
  qed
qed

lemma heapifyUp_drop:
  "i < n \<Longrightarrow> drop n (heapifyUp h i) = drop n h"
proof (induction h i rule: heapifyUp.induct)
  case (1 h i)
  show ?case
  proof (cases "i > 0 \<and> snd (h ! i) < snd (h ! ((i - 1) div 2))")
    case True
    then have p: "(i - 1) div 2 < n" using "1.prems" by arith
    from "1.IH"[OF True p] have "drop n (heapifyUp (swap_list h i ((i - 1) div 2)) ((i - 1) div 2))
       = drop n (swap_list h i ((i - 1) div 2))" .
    also have "\<dots> = drop n h" using p "1.prems" by (simp add: swap_list_def)
    finally show ?thesis using True by (subst heapifyUp.simps) simp
  next
    case False
    then show ?thesis by (subst heapifyUp.simps) auto
  qed
qed

subsection \<open>heapifyDown\<close>

definition smallest_of :: "Element list \<Rightarrow> nat \<Rightarrow> nat \<Rightarrow> nat" where
  "smallest_of h sz i =
     (let left = 2 * i + 1;
          right = 2 * i + 2;
          s1 = (if left < sz \<and> snd (h ! left) < snd (h ! i) then left else i)
      in if right < sz \<and> snd (h ! right) < snd (h ! s1) then right else s1)"

lemma heapifyDown_unfold:
  "heapifyDown h sz i =
     (if smallest_of h sz i \<noteq> i
      then heapifyDown (swap_list h i (smallest_of h sz i)) sz (smallest_of h sz i) else h)"
  by (subst heapifyDown.simps) (simp add: smallest_of_def Let_def)

lemma smallest_of_child:
  assumes "smallest_of h sz i \<noteq> i"
  shows "smallest_of h sz i < sz" "i < smallest_of h sz i"
    "(smallest_of h sz i - 1) div 2 = i"
    "snd (h ! smallest_of h sz i) < snd (h ! i)"
    "\<And>j. 0 < j \<Longrightarrow> j < sz \<Longrightarrow> (j - 1) div 2 = i \<Longrightarrow> snd (h ! smallest_of h sz i) \<le> snd (h ! j)"
proof -
  let ?s = "smallest_of h sz i"
  from assms show "?s < sz" "i < ?s" "(?s - 1) div 2 = i" "snd (h ! ?s) < snd (h ! i)"
    by (auto simp: smallest_of_def Let_def split: if_splits)
  fix j assume j: "0 < j" "j < sz" "(j - 1) div 2 = i"
  then have "j = 2 * i + 1 \<or> j = 2 * i + 2" by arith
  with assms j(2) show "snd (h ! ?s) \<le> snd (h ! j)"
    by (auto simp: smallest_of_def Let_def split: if_splits)
qed

lemma smallest_of_self:
  assumes "smallest_of h sz i = i" "0 < j" "j < sz" "(j - 1) div 2 = i"
  shows "snd (h ! i) \<le> snd (h ! j)"
proof -
  from assms(2-4) have "j = 2 * i + 1 \<or> j = 2 * i + 2" by arith
  with assms(1,3) show ?thesis
    by (auto simp: smallest_of_def Let_def split: if_splits)
qed

definition down_pre :: "Element list \<Rightarrow> nat \<Rightarrow> nat \<Rightarrow> bool" where
  "down_pre h n i =
     (n \<le> length h \<and>
      (\<forall>j. 0 < j \<and> j < n \<and> (j - 1) div 2 \<noteq> i \<longrightarrow> parent_le h j) \<and>
      (\<forall>j. 0 < j \<and> j < n \<and> (j - 1) div 2 = i \<and> 0 < i \<longrightarrow>
           snd (h ! ((i - 1) div 2)) \<le> snd (h ! j)))"

lemma down_pre_step:
  assumes pre: "down_pre h n i" and ne: "smallest_of h n i \<noteq> i"
  shows "down_pre (swap_list h i (smallest_of h n i)) n (smallest_of h n i)"
proof -
  define s where "s = smallest_of h n i"
  define h' where "h' = swap_list h i s"
  define par where "par = (\<lambda>j::nat. (j - 1) div 2)"
  have par_lt: "\<And>j. 0 < j \<Longrightarrow> par j < j" unfolding par_def by arith
  from pre have nl: "n \<le> length h"
    and A: "\<And>j. 0 < j \<Longrightarrow> j < n \<Longrightarrow> par j \<noteq> i \<Longrightarrow> snd (h ! par j) \<le> snd (h ! j)"
    and B: "\<And>j. 0 < j \<Longrightarrow> j < n \<Longrightarrow> par j = i \<Longrightarrow> 0 < i \<Longrightarrow> snd (h ! par i) \<le> snd (h ! j)"
    by (auto simp: down_pre_def parent_le_def par_def)
  from smallest_of_child[OF ne] have sn: "s < n" and i_s: "i < s" and ps: "par s = i"
    and lt: "snd (h ! s) < snd (h ! i)"
    and ch: "\<And>j. 0 < j \<Longrightarrow> j < n \<Longrightarrow> par j = i \<Longrightarrow> snd (h ! s) \<le> snd (h ! j)"
    by (simp_all add: s_def par_def)
  have il: "i < length h" and sl: "s < length h" using sn i_s nl by auto
  have nth: "\<And>k. h' ! k = (if k = s then h ! i else if k = i then h ! s else h ! k)"
    unfolding h'_def using swap_list_nth[OF il sl] by simp
  have C: "snd (h' ! par j) \<le> snd (h' ! j)" if j: "0 < j" "j < n" "par j \<noteq> s" for j
  proof (cases "par j = i")
    case True
    show ?thesis
    proof (cases "j = s")
      case js: True
      with lt True i_s show ?thesis by (simp add: nth)
    next
      case False
      from par_lt[OF j(1)] True have "i < j" by simp
      with ch[OF j(1,2) True] True False i_s show ?thesis by (simp add: nth)
    qed
  next
    case False
    from A[OF j(1,2) False] have pj: "snd (h ! par j) \<le> snd (h ! j)" .
    from False ps have js: "j \<noteq> s" by auto
    show ?thesis
    proof (cases "j = i")
      case True
      then have i0: "0 < i" using j(1) by simp
      have "0 < s" using i_s by simp
      from B[OF this sn ps i0] have "snd (h ! par i) \<le> snd (h ! s)" .
      moreover have "par i \<noteq> i" "par i \<noteq> s" using par_lt[OF i0] i_s by auto
      ultimately show ?thesis using True i_s by (simp add: nth)
    next
      case ji: False
      with pj js False j(3) show ?thesis by (simp add: nth)
    qed
  qed
  have D: "snd (h' ! par s) \<le> snd (h' ! j)" if j: "0 < j" "j < n" "par j = s" for j
  proof -
    from par_lt[OF j(1)] j(3) have sj: "s < j" by simp
    have "par j \<noteq> i" using j(3) i_s by simp
    from A[OF j(1,2) this] j(3) have "snd (h ! s) \<le> snd (h ! j)" by simp
    with sj i_s ps show ?thesis by (simp add: nth)
  qed
  have "down_pre h' n s"
    unfolding down_pre_def parent_le_def using nl C D
    by (auto simp: par_def h'_def)
  then show ?thesis by (simp add: h'_def s_def)
qed

lemma heapifyDown_heap_order:
  "down_pre h n i \<Longrightarrow> heap_order (heapifyDown h n i) n"
proof (induction h n i rule: heapifyDown.induct)
  case (1 h sz i)
  show ?case
  proof (cases "smallest_of h sz i \<noteq> i")
    case True
    from down_pre_step[OF "1.prems" True]
    have pre': "down_pre (swap_list h i (smallest_of h sz i)) sz (smallest_of h sz i)" .
    have "heap_order (heapifyDown (swap_list h i (smallest_of h sz i)) sz (smallest_of h sz i)) sz"
      using "1.IH"[OF refl refl refl refl] True pre'
      unfolding smallest_of_def Let_def by blast
    with True show ?thesis by (subst heapifyDown_unfold) simp
  next
    case False
    then have self: "smallest_of h sz i = i" by simp
    have "\<forall>j. 0 < j \<and> j < sz \<longrightarrow> parent_le h j"
    proof (intro allI impI)
      fix j assume j: "0 < j \<and> j < sz"
      show "parent_le h j"
      proof (cases "(j - 1) div 2 = i")
        case True
        with smallest_of_self[OF self, of j] j show ?thesis by (simp add: parent_le_def)
      next
        case False
        with "1.prems" j show ?thesis by (auto simp: down_pre_def)
      qed
    qed
    then have "heap_order h sz" by (simp add: heap_order_parent)
    with self show ?thesis by (subst heapifyDown_unfold) simp
  qed
qed

lemma heapifyDown_length [simp]: "length (heapifyDown h n i) = length h"
proof (induction h n i rule: heapifyDown.induct)
  case (1 h sz i)
  show ?case
  proof (cases "smallest_of h sz i \<noteq> i")
    case True
    have "length (heapifyDown (swap_list h i (smallest_of h sz i)) sz (smallest_of h sz i))
          = length (swap_list h i (smallest_of h sz i))"
      using "1.IH"[OF refl refl refl refl] True
      unfolding smallest_of_def Let_def by blast
    with True show ?thesis by (subst heapifyDown_unfold) simp
  next
    case False
    then show ?thesis by (subst heapifyDown_unfold) simp
  qed
qed

lemma heapifyDown_mset:
  "n \<le> length h \<Longrightarrow> mset (take n (heapifyDown h n i)) = mset (take n h)"
proof (induction h n i rule: heapifyDown.induct)
  case (1 h sz i)
  show ?case
  proof (cases "smallest_of h sz i \<noteq> i")
    case True
    let ?s = "smallest_of h sz i"
    have "sz \<le> length (swap_list h i ?s)" using "1.prems" by simp
    then have "mset (take sz (heapifyDown (swap_list h i ?s) sz ?s)) = mset (take sz (swap_list h i ?s))"
      using "1.IH"[OF refl refl refl refl] True
      unfolding smallest_of_def Let_def by blast
    also have "\<dots> = mset (take sz h)"
      using smallest_of_child(1,2)[OF True] "1.prems"
      by (intro mset_take_swap_list) auto
    finally show ?thesis using True by (subst heapifyDown_unfold) simp
  next
    case False
    then show ?thesis by (subst heapifyDown_unfold) simp
  qed
qed

subsection \<open>The queue as a multiset of elements\<close>

definition pq_mset :: "PriorityQueue \<Rightarrow> Element multiset" where
  "pq_mset pq = mset (take (pq_size pq) (pq_heap pq))"

lemma heap_order_root_min:
  assumes "heap_order h n"
  shows "j < n \<Longrightarrow> snd (h ! 0) \<le> snd (h ! j)"
proof (induction j rule: less_induct)
  case (less j)
  show ?case
  proof (cases "j = 0")
    case True
    then show ?thesis by simp
  next
    case False
    then have j: "0 < j \<and> j < n" using less.prems by simp
    with assms have "parent_le h j" by (simp add: heap_order_parent)
    moreover have "(j - 1) div 2 < j" using j by arith
    moreover from this less.prems have "(j - 1) div 2 < n" by simp
    ultimately show ?thesis using less.IH[of "(j - 1) div 2"]
      by (simp add: parent_le_def)
  qed
qed

lemma PriorityQueue_new_invariant:
  "PriorityQueue_new cap = Inr pq \<Longrightarrow> pq_invariant pq \<and> pq_mset pq = {#} \<and> pq_capacity pq = nat cap"
  by (auto simp: PriorityQueue_new_def pq_invariant_def heap_order_def pq_mset_def split: if_splits)

lemma insert_pq_invariant:
  assumes inv: "pq_invariant pq" and ins: "insert_pq pq v p = Inr pq'"
  shows "pq_invariant pq'" "pq_mset pq' = add_mset (v, p) (pq_mset pq)"
    "pq_size pq' = pq_size pq + 1" "pq_capacity pq' = pq_capacity pq"
proof -
  define n where "n = pq_size pq"
  define h where "h = pq_heap pq"
  define h1 where "h1 = h[n := (v, p)]"
  from ins have lt: "n < pq_capacity pq"
    and pq': "pq' = pq\<lparr>pq_heap := heapifyUp h1 n, pq_size := n + 1\<rparr>"
    using inv by (auto simp: insert_pq_def pq_invariant_def n_def h_def h1_def split: if_splits)
  from inv have len: "length h = pq_capacity pq" and ho: "heap_order h n"
    by (auto simp: pq_invariant_def n_def h_def)
  have "up_pre h1 (n + 1) n"
    unfolding up_pre_def
  proof (intro conjI allI impI)
    show "n < n + 1" by simp
    show "n + 1 \<le> length h1" using lt len by (simp add: h1_def)
  next
    fix j assume j: "0 < j \<and> j < n + 1 \<and> j \<noteq> n"
    then have jn: "0 < j \<and> j < n" by simp
    then have "(j - 1) div 2 \<noteq> n" by arith
    moreover from ho jn have "parent_le h j" by (simp add: heap_order_parent)
    ultimately show "parent_le h1 j" using jn by (simp add: parent_le_def h1_def)
  next
    fix j assume j: "0 < j \<and> j < n + 1 \<and> (j - 1) div 2 = n \<and> 0 < n"
    then have False by arith
    then show "snd (h1 ! ((n - 1) div 2)) \<le> snd (h1 ! j)" ..
  qed
  then have "heap_order (heapifyUp h1 n) (n + 1)" by (rule heapifyUp_heap_order)
  with lt len show "pq_invariant pq'"
    by (simp add: pq' pq_invariant_def h1_def)
  have "mset (take (n + 1) (heapifyUp h1 n)) = mset (take (n + 1) h1)"
    using lt len by (intro heapifyUp_mset) (simp_all add: h1_def)
  also have "take (n + 1) h1 = take n h @ [(v, p)]"
    using lt len by (simp add: h1_def take_Suc_conv_app_nth)
  finally show "pq_mset pq' = add_mset (v, p) (pq_mset pq)"
    by (simp add: pq' pq_mset_def n_def h_def)
  show "pq_size pq' = pq_size pq + 1" "pq_capacity pq' = pq_capacity pq"
    by (simp_all add: pq' n_def)
qed

lemma extractMin_invariant:
  assumes inv: "pq_invariant pq" and ex: "extractMin pq = Inr (x, pq')"
  shows "pq_invariant pq'"
    "\<exists>p. pq_mset pq = add_mset (x, p) (pq_mset pq') \<and> (\<forall>e \<in># pq_mset pq. p \<le> snd e)"
    "pq_size pq' + 1 = pq_size pq" "pq_capacity pq' = pq_capacity pq"
proof -
  define n where "n = pq_size pq"
  define h where "h = pq_heap pq"
  define sz where "sz = n - 1"
  define h1 where "h1 = h[0 := h ! sz]"
  from ex have n0: "0 < n" and x: "x = fst (h ! 0)"
    and pq': "pq' = pq\<lparr>pq_heap := heapifyDown h1 sz 0, pq_size := sz\<rparr>"
    by (auto simp: extractMin_def pq_isEmpty_def Let_def n_def h_def h1_def sz_def split: if_splits)
  from inv have len: "length h = pq_capacity pq" and ho: "heap_order h n" and nc: "n \<le> pq_capacity pq"
    by (auto simp: pq_invariant_def n_def h_def)
  have "down_pre h1 sz 0"
    unfolding down_pre_def
  proof (intro conjI allI impI)
    show "sz \<le> length h1" using nc len by (simp add: h1_def sz_def)
  next
    fix j assume j: "0 < j \<and> j < sz \<and> (j - 1) div 2 \<noteq> 0"
    then have "0 < j \<and> j < n" unfolding sz_def by arith
    with ho have "parent_le h j" by (simp add: heap_order_parent)
    with j show "parent_le h1 j" by (simp add: parent_le_def h1_def)
  next
    fix j assume "0 < j \<and> j < sz \<and> (j - 1) div 2 = 0 \<and> (0::nat) < 0"
    then show "snd (h1 ! ((0 - 1) div 2)) \<le> snd (h1 ! j)" by simp
  qed
  then have "heap_order (heapifyDown h1 sz 0) sz" by (rule heapifyDown_heap_order)
  with nc len show "pq_invariant pq'"
    by (simp add: pq' pq_invariant_def h1_def sz_def)
  have szl: "sz \<le> length h1" using nc len by (simp add: h1_def sz_def)
  have m1: "mset (take sz (heapifyDown h1 sz 0)) = mset (take sz h1)"
    using szl by (rule heapifyDown_mset)
  have tn: "take n h = take sz h @ [h ! sz]"
    using n0 nc len by (simp add: sz_def take_Suc_conv_app_nth[symmetric])
  have m2: "mset (take n h) = add_mset (h ! 0) (mset (take sz h1))"
  proof (cases "sz = 0")
    case True
    with tn show ?thesis by simp
  next
    case False
    then have "0 < length (take sz h)" using nc len n0 by (simp add: sz_def)
    then have "mset ((take sz h)[0 := h ! sz]) = add_mset (h ! sz) (mset (take sz h) - {#take sz h ! 0#})"
      by (rule mset_update)
    moreover have "take sz h1 = (take sz h)[0 := h ! sz]"
      using False by (simp add: h1_def take_update_swap)
    moreover have "take sz h ! 0 = h ! 0" using False by simp
    moreover have "h ! 0 \<in># mset (take sz h)"
      using False \<open>0 < length (take sz h)\<close> by (metis \<open>take sz h ! 0 = h ! 0\<close> nth_mem set_mset_mset)
    ultimately show ?thesis using tn by simp
  qed
  have "\<forall>e \<in># mset (take n h). snd (h ! 0) \<le> snd e"
  proof
    fix e assume "e \<in># mset (take n h)"
    then obtain j where "j < n" "e = h ! j"
      using nc len by (auto simp: in_set_conv_nth)
    with heap_order_root_min[OF ho] show "snd (h ! 0) \<le> snd e" by simp
  qed
  with m1 m2 x show "\<exists>p. pq_mset pq = add_mset (x, p) (pq_mset pq') \<and> (\<forall>e \<in># pq_mset pq. p \<le> snd e)"
    by (intro exI[of _ "snd (h ! 0)"]) (simp add: pq' pq_mset_def n_def[symmetric] h_def[symmetric])
  show "pq_size pq' + 1 = pq_size pq" "pq_capacity pq' = pq_capacity pq"
    using n0 by (simp_all add: pq' n_def sz_def)
qed

text \<open>
  C9. A new priority queue satisfies the min-heap order invariant (every element at
  index \<open>i\<close> has a priority no larger than those at \<open>2i+1\<close> and \<open>2i+2\<close>, where these are
  below \<open>size\<close>), and every \<open>insert\<close> and every \<open>extractMin\<close> that returns preserves it.
\<close>

theorem heap_order_maintained:
  "(PriorityQueue_new cap = Inr pq0 \<longrightarrow> pq_invariant pq0) \<and>
   (pq_invariant pq \<and> insert_pq pq v p = Inr pq1 \<longrightarrow> pq_invariant pq1) \<and>
   (pq_invariant pq \<and> extractMin pq = Inr (x, pq2) \<longrightarrow> pq_invariant pq2)"
  using PriorityQueue_new_invariant insert_pq_invariant(1) extractMin_invariant(1) by blast

theorem heap_order_maintained_witness:
  "PriorityQueue_new 3 = Inr \<lparr>pq_heap = [(0, 0), (0, 0), (0, 0)], pq_capacity = 3, pq_size = 0\<rparr> \<and>
   pq_invariant \<lparr>pq_heap = [(0, 0), (0, 0), (0, 0)], pq_capacity = 3, pq_size = 0\<rparr> \<and>
   pq_invariant \<lparr>pq_heap = [(100, 5), (0, 0), (0, 0)], pq_capacity = 3, pq_size = 1\<rparr> \<and>
   insert_pq \<lparr>pq_heap = [(100, 5), (0, 0), (0, 0)], pq_capacity = 3, pq_size = 1\<rparr> 200 2
     = Inr \<lparr>pq_heap = [(200, 2), (100, 5), (0, 0)], pq_capacity = 3, pq_size = 2\<rparr> \<and>
   pq_invariant \<lparr>pq_heap = [(200, 2), (100, 5), (0, 0)], pq_capacity = 3, pq_size = 2\<rparr> \<and>
   extractMin \<lparr>pq_heap = [(200, 2), (100, 5), (0, 0)], pq_capacity = 3, pq_size = 2\<rparr>
     = Inr (200, \<lparr>pq_heap = [(100, 5), (100, 5), (0, 0)], pq_capacity = 3, pq_size = 1\<rparr>) \<and>
   pq_invariant \<lparr>pq_heap = [(100, 5), (100, 5), (0, 0)], pq_capacity = 3, pq_size = 1\<rparr>"
proof -
  let ?p0 = "\<lparr>pq_heap = [(0, 0), (0, 0), (0, 0)], pq_capacity = 3, pq_size = 0\<rparr>"
  let ?p1 = "\<lparr>pq_heap = [(100, 5), (0, 0), (0, 0)], pq_capacity = 3, pq_size = 1\<rparr>"
  let ?p2 = "\<lparr>pq_heap = [(200, 2), (100, 5), (0, 0)], pq_capacity = 3, pq_size = 2\<rparr>"
  let ?p3 = "\<lparr>pq_heap = [(100, 5), (100, 5), (0, 0)], pq_capacity = 3, pq_size = 1\<rparr>"
  have new: "PriorityQueue_new 3 = Inr ?p0" by code_simp
  have i1: "pq_invariant ?p1" by code_simp
  have ins: "insert_pq ?p1 200 2 = Inr ?p2" by code_simp
  have ext: "extractMin ?p2 = Inr (200, ?p3)" by code_simp
  from heap_order_maintained[of 3 ?p0 ?p1 200 2 ?p2 200 ?p3] new i1 ins
  have i0: "pq_invariant ?p0" and i2: "pq_invariant ?p2" by blast+
  from heap_order_maintained[of 3 ?p0 ?p2 200 2 ?p2 200 ?p3] i2 ext
  have i3: "pq_invariant ?p3" by blast
  from new i0 i1 ins i2 ext i3 show ?thesis by blast
qed

section \<open>Graph: edges are stored and removed in both directions\<close>

lemma triangle_built: "graph_of_edges 3 [(0, 1, 1), (1, 2, 2), (0, 2, 5)] = Inr triangle"
  by code_simp

lemma wf_triangle: "wf_graph triangle"
  by code_simp

text \<open>
  C7. After \<open>addEdge(u, v, w)\<close> the snapshot of \<open>u\<close> contains \<open>(v, w)\<close> and the snapshot of
  \<open>v\<close> contains \<open>(u, w)\<close>. If the new edge is the only copy of that pair (neither snapshot
  held it before the call), then after the following \<open>removeEdge(u, v)\<close> neither snapshot
  contains it.
\<close>

theorem addEdge_removeEdge_symmetry:
  assumes wf: "wf_graph g"
    and add: "addEdge g u v w = Inr g1"
  shows "(\<exists>nu nv. getNeighbors g1 u = Inr nu \<and> getNeighbors g1 v = Inr nv \<and>
            (nat v, w) \<in> set nu \<and> (nat u, w) \<in> set nv) \<and>
         ((\<exists>nu nv. getNeighbors g u = Inr nu \<and> getNeighbors g v = Inr nv \<and>
              (nat v, w) \<notin> set nu \<and> (nat u, w) \<notin> set nv) \<longrightarrow>
          (\<exists>g2 nu nv. removeEdge g1 u v = Inr g2 \<and>
              getNeighbors g2 u = Inr nu \<and> getNeighbors g2 v = Inr nv \<and>
              (nat v, w) \<notin> set nu \<and> (nat u, w) \<notin> set nv))"
proof -
  from add have rng: "0 \<le> u" "u < int (numVertices g)" "0 \<le> v" "v < int (numVertices g)"
    by (auto simp: addEdge_def split: if_splits)
  from wf have len: "length (adjacencyList g) = numVertices g"
    by (simp add: wf_graph_def)
  have lu: "nat u < length (adjacencyList g)" and lv: "nat v < length (adjacencyList g)"
    using rng len by auto
  show ?thesis
  proof (cases "u = v")
    case True
    with add rng lu show ?thesis
      by (auto simp: addEdge_def removeEdge_def getNeighbors_def Let_def)
  next
    case False
    then have ne: "nat u \<noteq> nat v" using rng by auto
    with add rng lu lv show ?thesis
      by (auto simp: addEdge_def removeEdge_def getNeighbors_def Let_def)
  qed
qed

theorem addEdge_removeEdge_symmetry_witness:
  "wf_graph triangle \<and>
   addEdge triangle 0 1 7 =
     Inr \<lparr>numVertices = 3,
          adjacencyList = [[(1, 7), (2, 5), (1, 1)], [(0, 7), (2, 2), (0, 1)], [(0, 5), (1, 2)]]\<rparr> \<and>
   getNeighbors triangle 0 = Inr [(2, 5), (1, 1)] \<and>
   getNeighbors triangle 1 = Inr [(2, 2), (0, 1)] \<and>
   (\<exists>g2 nu nv.
      removeEdge \<lparr>numVertices = 3,
          adjacencyList = [[(1, 7), (2, 5), (1, 1)], [(0, 7), (2, 2), (0, 1)], [(0, 5), (1, 2)]]\<rparr> 0 1
        = Inr g2 \<and>
      getNeighbors g2 0 = Inr nu \<and> getNeighbors g2 1 = Inr nv \<and>
      (1, 7) \<notin> set nu \<and> (0, 7) \<notin> set nv)"
proof -
  let ?g1 = "\<lparr>numVertices = 3,
          adjacencyList = [[(1, 7), (2, 5), (1, 1)], [(0, 7), (2, 2), (0, 1)], [(0, 5), (1, 2)]]\<rparr>"
  have add: "addEdge triangle 0 1 7 = Inr ?g1"
    by code_simp
  have n0: "getNeighbors triangle 0 = Inr [(2, 5), (1, 1)]"
    and n1: "getNeighbors triangle 1 = Inr [(2, 2), (0, 1)]"
    by code_simp+
  from addEdge_removeEdge_symmetry[OF wf_triangle add] n0 n1
  have "\<exists>g2 nu nv. removeEdge ?g1 0 1 = Inr g2 \<and>
      getNeighbors g2 0 = Inr nu \<and> getNeighbors g2 1 = Inr nv \<and>
      (1, 7) \<notin> set nu \<and> (0, 7) \<notin> set nv"
    by simp
  with wf_triangle add n0 n1 show ?thesis by blast
qed

section \<open>The reference triangle\<close>

lemma prim_triangle: "prim triangle = Inr triangle_mst"
  by code_simp

lemma kruskal_triangle: "kruskal triangle = Some (Inr triangle_mst)"
  by code_simp

text \<open>
  C3. On the graph built by \<open>addEdge(0,1,1)\<close>, \<open>addEdge(1,2,2)\<close>, \<open>addEdge(0,2,5)\<close> both
  \<open>prim\<close> and \<open>kruskal\<close> return a tree that holds the edge 0-1 with weight 1 and the edge
  1-2 with weight 2 in both directions, holds no edge between 0 and 2, and has four
  adjacency entries in all.
\<close>

theorem triangle_mst_prim_kruskal:
  "\<exists>g t. graph_of_edges 3 [(0, 1, 1), (1, 2, 2), (0, 2, 5)] = Inr g \<and>
     prim g = Inr t \<and> kruskal g = Some (Inr t) \<and>
     (1, 1) \<in> set (adjacencyList t ! 0) \<and> (0, 1) \<in> set (adjacencyList t ! 1) \<and>
     (2, 2) \<in> set (adjacencyList t ! 1) \<and> (1, 2) \<in> set (adjacencyList t ! 2) \<and>
     2 \<notin> fst ` set (adjacencyList t ! 0) \<and> 0 \<notin> fst ` set (adjacencyList t ! 2) \<and>
     entry_count t = 4"
  apply (rule exI[of _ triangle])
  apply (rule exI[of _ triangle_mst])
  apply (simp only: triangle_built prim_triangle kruskal_triangle)
  apply (simp add: triangle_mst_def entry_count_def)
  done

section \<open>The priority queue of dijkstra and prim is too small\<close>

lemma hub5_built:
  "graph_of_edges 5
     [(0, 1, 1), (0, 2, 10), (0, 3, 10), (0, 4, 10), (1, 2, 1), (1, 3, 1), (1, 4, 1)] = Inr hub5"
  by code_simp

lemma wf_hub5: "wf_graph hub5"
  by code_simp

lemma nonneg_hub5: "nonneg_weights hub5"
  by code_simp

lemma dijkstra_hub5: "dijkstra hub5 0 = Inl (GraphException PQ_is_full)"
  by code_simp

lemma prim_hub5: "prim hub5 = Inl (GraphException PQ_is_full)"
  by code_simp

text \<open>
  C4. There is a well-formed graph with non-negative weights and a valid start vertex on
  which \<open>dijkstra\<close> throws "Priority Queue is full", and \<open>prim\<close> throws it on the same
  graph: the queue holds \<open>vertexCount\<close> entries and every improvement inserts one more.
\<close>

theorem pq_capacity_exceeded:
  "\<exists>g start e.
     graph_of_edges 5
       [(0, 1, 1), (0, 2, 10), (0, 3, 10), (0, 4, 10), (1, 2, 1), (1, 3, 1), (1, 4, 1)] = Inr g \<and>
     wf_graph g \<and> nonneg_weights g \<and> 0 \<le> start \<and> start < getVertexCount g \<and>
     CapacityExceeded e \<and> dijkstra g start = Inl e \<and> prim g = Inl e"
  apply (rule exI[of _ hub5])
  apply (rule exI[of _ 0])
  apply (rule exI[of _ "GraphException PQ_is_full"])
  apply (simp only: hub5_built wf_hub5 nonneg_hub5 dijkstra_hub5 prim_hub5)
  apply (simp add: CapacityExceeded_def getVertexCount_def hub5_def)
  done

section \<open>Constructors and non-positive sizes\<close>

text \<open>
  C5. Only \<open>PriorityQueue\<close> rejects a size that is not positive. \<open>Graph(0)\<close>, \<open>Queue(0)\<close>
  and \<open>UnionFind(0)\<close> construct an empty object, and a negative size reaches \<open>new[]\<close>.
\<close>

theorem constructors_at_zero:
  "Graph_new 0 = Inr \<lparr>numVertices = 0, adjacencyList = []\<rparr> \<and>
   Queue_new 0 = Inr \<lparr>q_data = [], q_front = 0, q_rear = - 1, q_capacity = 0, q_count = 0\<rparr> \<and>
   UnionFind_new 0 = Inr \<lparr>uf_parent = [], uf_rank = [], uf_size = 0\<rparr> \<and>
   PriorityQueue_new 0 = Inl (GraphException PQ_capacity_must_be_positive) \<and>
   Graph_new (- 1) = Inl Bad_array_new_length \<and>
   Queue_new (- 1) = Inl Bad_array_new_length \<and>
   UnionFind_new (- 1) = Inl Bad_array_new_length \<and>
   PriorityQueue_new (- 1) = Inl (GraphException PQ_capacity_must_be_positive)"
  by (simp add: Graph_new_def Queue_new_def UnionFind_new_def PriorityQueue_new_def)

section \<open>A start vertex out of range\<close>

text \<open>
  C6. None of \<open>bfs\<close>, \<open>dfs\<close>, \<open>dijkstra\<close> validates \<open>start\<close>. On the triangle with
  \<open>start = 3\<close> or \<open>start = -1\<close> each has built its result graph and its arrays and then
  writes \<open>visited[start]\<close> or \<open>dist[start]\<close> outside the array.
\<close>

theorem start_out_of_range_unchecked:
  "bfs triangle 3 = Inl UndefinedBehaviour \<and> bfs triangle (- 1) = Inl UndefinedBehaviour \<and>
   dfs triangle 3 = Inl UndefinedBehaviour \<and> dfs triangle (- 1) = Inl UndefinedBehaviour \<and>
   dijkstra triangle 3 = Inl UndefinedBehaviour \<and>
   dijkstra triangle (- 1) = Inl UndefinedBehaviour \<and>
   \<not> OutOfRange UndefinedBehaviour"
  by (simp add: bfs_def bfs_run_def dfs_def dijkstra_def dijkstra_run_def Let_def Graph_new_def Queue_new_def
      getVertexCount_def triangle_def OutOfRange_def)

section \<open>bfs: the queue never overflows\<close>

text \<open>
  \<open>q_contents\<close> reads the circular buffer from \<open>front\<close> on; \<open>wf_queue\<close> is what the
  constructor establishes (for a positive capacity) and \<open>enqueue\<close> and \<open>dequeue\<close> keep.
\<close>

definition q_contents :: "Queue \<Rightarrow> int list" where
  "q_contents q = map (\<lambda>k. q_data q ! ((q_front q + k) mod q_capacity q)) [0..<q_count q]"

definition wf_queue :: "Queue \<Rightarrow> bool" where
  "wf_queue q =
     (0 < q_capacity q \<and> length (q_data q) = q_capacity q \<and> q_count q \<le> q_capacity q \<and>
      q_front q < q_capacity q \<and>
      (q_rear q + 1) mod int (q_capacity q) = int ((q_front q + q_count q) mod q_capacity q))"

lemma Queue_new_wf:
  "0 < n \<Longrightarrow> Queue_new n = Inr q \<Longrightarrow> wf_queue q \<and> q_contents q = [] \<and> q_capacity q = nat n \<and> q_count q = 0"
  by (auto simp: Queue_new_def wf_queue_def q_contents_def)

lemma mod_neq_between:
  fixes f k c cap :: nat
  assumes "k < c" "c < cap"
  shows "(f + k) mod cap \<noteq> (f + c) mod cap"
proof
  assume "(f + k) mod cap = (f + c) mod cap"
  then have "(f + c) mod cap = (f + k) mod cap" by simp
  then have "cap dvd (f + c) - (f + k)"
    using assms by (intro mod_eq_dvd_iff_nat[THEN iffD1]) auto
  then have "cap dvd c - k" by simp
  moreover have "0 < c - k" "c - k < cap" using assms by auto
  ultimately show False by (auto dest: dvd_imp_le)
qed

lemma enqueue_wf:
  assumes wf: "wf_queue q" and lt: "q_count q < q_capacity q"
  shows "\<exists>q'. enqueue q v = Inr q' \<and> wf_queue q' \<and> q_contents q' = q_contents q @ [v] \<and>
           q_count q' = q_count q + 1 \<and> q_capacity q' = q_capacity q"
proof -
  define cap where "cap = q_capacity q"
  define f where "f = q_front q"
  define c where "c = q_count q"
  define r where "r = (q_rear q + 1) mod int cap"
  define q' where "q' = q\<lparr>q_rear := r, q_data := (q_data q)[nat r := v], q_count := c + 1\<rparr>"
  from wf have cap0: "0 < cap" and len: "length (q_data q) = cap" and fc: "f < cap"
    and rr: "r = int ((f + c) mod cap)"
    by (auto simp: wf_queue_def cap_def f_def c_def r_def)
  have nr: "nat r = (f + c) mod cap" using rr by simp
  have enq: "enqueue q v = Inr q'"
    using lt by (simp add: enqueue_def Let_def q'_def r_def cap_def c_def)
  have "(r + 1) mod int cap = int ((f + (c + 1)) mod cap)"
  proof -
    have "(r + 1) mod int cap = (int ((f + c) mod cap) + int 1) mod int cap" using rr by simp
    also have "\<dots> = int (((f + c) mod cap + 1) mod cap)" by (simp only: zmod_int of_nat_add)
    also have "((f + c) mod cap + 1) mod cap = (f + c + 1) mod cap" by (simp add: mod_Suc_eq)
    finally show ?thesis by (simp add: add.assoc)
  qed
  then have wf': "wf_queue q'"
    using cap0 len fc lt by (simp add: wf_queue_def q'_def cap_def[symmetric] f_def[symmetric] c_def)
  have "q_contents q' = map (\<lambda>k. (q_data q)[nat r := v] ! ((f + k) mod cap)) [0..<c + 1]"
    by (simp add: q_contents_def q'_def f_def cap_def)
  also have "\<dots> = map (\<lambda>k. (q_data q)[nat r := v] ! ((f + k) mod cap)) [0..<c] @ [v]"
    using nr len cap0 by simp
  also have "map (\<lambda>k. (q_data q)[nat r := v] ! ((f + k) mod cap)) [0..<c]
           = map (\<lambda>k. q_data q ! ((f + k) mod cap)) [0..<c]"
  proof (rule map_cong[OF refl])
    fix k assume "k \<in> set [0..<c]"
    then have "k < c" by simp
    from mod_neq_between[OF this, of cap f] lt have "(f + k) mod cap \<noteq> nat r"
      by (simp add: nr c_def cap_def)
    then show "(q_data q)[nat r := v] ! ((f + k) mod cap) = q_data q ! ((f + k) mod cap)"
      by simp
  qed
  finally have "q_contents q' = q_contents q @ [v]"
    by (simp add: q_contents_def f_def cap_def c_def)
  with enq wf' show ?thesis by (auto simp: q'_def c_def)
qed

lemma dequeue_wf:
  assumes wf: "wf_queue q" and ne: "\<not> isEmpty q"
  shows "\<exists>v q'. dequeue q = Inr (v, q') \<and> wf_queue q' \<and> q_contents q = v # q_contents q' \<and>
           q_count q' + 1 = q_count q \<and> q_capacity q' = q_capacity q"
proof -
  define cap where "cap = q_capacity q"
  define f where "f = q_front q"
  define c where "c = q_count q"
  define q' where "q' = q\<lparr>q_front := (f + 1) mod cap, q_count := c - 1\<rparr>"
  from wf have cap0: "0 < cap" and len: "length (q_data q) = cap" and fc: "f < cap"
    and cc: "c \<le> cap"
    and rr: "(q_rear q + 1) mod int cap = int ((f + c) mod cap)"
    by (auto simp: wf_queue_def cap_def f_def c_def)
  from ne have c0: "0 < c" by (simp add: isEmpty_def c_def)
  have deq: "dequeue q = Inr (q_data q ! f, q')"
    using ne by (simp add: dequeue_def Let_def q'_def f_def cap_def c_def)
  have "((f + 1) mod cap + (c - 1)) mod cap = (f + c) mod cap"
  proof -
    have "((f + 1) mod cap + (c - 1)) mod cap = ((f + 1) + (c - 1)) mod cap"
      by (rule mod_add_left_eq)
    also have "(f + 1) + (c - 1) = f + c" using c0 by simp
    finally show ?thesis .
  qed
  then have wf': "wf_queue q'"
    using cap0 len cc rr by (simp add: wf_queue_def q'_def cap_def[symmetric])
  have "[0..<c] = 0 # map Suc [0..<c - 1]"
    using c0 by (metis Suc_pred' map_Suc_upt upt_conv_Cons)
  then have "q_contents q = q_data q ! (f mod cap) # map (\<lambda>k. q_data q ! ((f + Suc k) mod cap)) [0..<c - 1]"
    by (simp add: q_contents_def f_def cap_def c_def comp_def)
  also have "f mod cap = f" using fc by simp
  also have "map (\<lambda>k. q_data q ! ((f + Suc k) mod cap)) [0..<c - 1] = q_contents q'"
    by (simp add: q_contents_def q'_def cap_def[symmetric] mod_add_left_eq)
  finally show ?thesis using deq wf' c0 by (auto simp: q'_def c_def cap_def)
qed

definition bfs_inv :: "Graph \<Rightarrow> bfs_state \<Rightarrow> bool" where
  "bfs_inv g s =
     (case s of (visited, tree, q, enq) \<Rightarrow>
        length visited = numVertices g \<and> numVertices tree = numVertices g \<and>
        wf_queue q \<and> q_capacity q = numVertices g \<and>
        set (q_contents q) \<subseteq> set enq \<and> q_count q \<le> length enq \<and> distinct enq \<and>
        set enq = {int v |v. v < numVertices g \<and> visited ! v})"

lemma enq_room:
  assumes "distinct enq" "set enq = {int x |x. x < n \<and> visited ! x}" "v < n" "\<not> visited ! v"
  shows "length enq < n"
proof -
  have "set enq \<subseteq> int ` ({..<n} - {v})" using assms(2,4) by auto
  then have "card (set enq) \<le> card (int ` ({..<n} - {v}))"
    by (intro card_mono) auto
  also have "\<dots> = card ({..<n} - {v})" by (intro card_image) (simp add: inj_on_def)
  also have "\<dots> = n - 1" using assms(3) by simp
  finally show ?thesis using assms(1,3) by (simp add: distinct_card)
qed

lemma bfs_for_inv:
  "bfs_inv g s \<Longrightarrow> 0 \<le> u \<Longrightarrow> u < int (numVertices g) \<Longrightarrow> list_all (\<lambda>(v, w). v < numVertices g) ns \<Longrightarrow>
   \<exists>s'. bfs_for u ns s = Inr s' \<and> bfs_inv g s'"
proof (induction u ns s rule: bfs_for.induct)
  case (1 u s)
  then show ?case by simp
next
  case (2 u v w ns visited tree q enq)
  let ?n = "numVertices g"
  from "2.prems"(1) have len: "length visited = ?n" and tn: "numVertices tree = ?n"
    and wq: "wf_queue q" and cap: "q_capacity q = ?n"
    and sub: "set (q_contents q) \<subseteq> set enq" and cnt: "q_count q \<le> length enq"
    and dist: "distinct enq" and se: "set enq = {int x |x. x < ?n \<and> visited ! x}"
    by (auto simp: bfs_inv_def)
  from "2.prems"(4) have vn: "v < ?n" and rest: "list_all (\<lambda>(v, w). v < ?n) ns" by auto
  have rng: "\<not> length visited \<le> v" using vn len by simp
  show ?case
  proof (cases "visited ! v")
    case True
    with "2.IH"(2)[OF rng _ "2.prems"(1-3) rest] rng show ?thesis by simp
  next
    case False
    obtain tree' where add: "addEdge tree u (int v) w = Inr tree'"
      and tn': "numVertices tree' = ?n"
      using "2.prems"(2,3) vn tn by (auto simp: addEdge_def Let_def)
    from enq_room[OF dist se vn False] cnt cap have "q_count q < q_capacity q" by simp
    from enqueue_wf[OF wq this, of "int v"] obtain q' where
      enq: "enqueue q (int v) = Inr q'" and wq': "wf_queue q'"
      and cont: "q_contents q' = q_contents q @ [int v]"
      and cnt': "q_count q' = q_count q + 1" and cap': "q_capacity q' = q_capacity q"
      by blast
    have "int v \<notin> set enq" using se False by auto
    moreover have "{int x |x. x < ?n \<and> visited[v := True] ! x} = insert (int v) {int x |x. x < ?n \<and> visited ! x}"
      using vn len by (auto simp: nth_list_update)
    ultimately have inv': "bfs_inv g (visited[v := True], tree', q', enq @ [int v])"
      using len tn' wq' cap cap' cont sub cnt cnt' dist se
      by (auto simp: bfs_inv_def)
    from "2.IH"(1)[OF rng False add enq inv' "2.prems"(2,3) rest] rng False add enq
    show ?thesis by simp
  qed
qed

lemma bfs_loop_inv:
  "wf_graph g \<Longrightarrow> bfs_inv g s \<Longrightarrow> \<exists>s'. bfs_loop g s = Inr s' \<and> bfs_inv g s'"
proof (induction g s rule: bfs_loop.induct)
  case (1 g visited tree q enq)
  let ?n = "numVertices g"
  show ?case
  proof (cases "isEmpty q")
    case True
    with "1.prems"(2) show ?thesis by (subst bfs_loop.simps) simp
  next
    case False
    from "1.prems"(2) have len: "length visited = ?n" and tn: "numVertices tree = ?n"
      and wq: "wf_queue q" and cap: "q_capacity q = ?n"
      and sub: "set (q_contents q) \<subseteq> set enq" and cnt: "q_count q \<le> length enq"
      and dist: "distinct enq" and se: "set enq = {int x |x. x < ?n \<and> visited ! x}"
      by (auto simp: bfs_inv_def)
    from dequeue_wf[OF wq False] obtain u q1 where
      deq: "dequeue q = Inr (u, q1)" and wq1: "wf_queue q1"
      and cont: "q_contents q = u # q_contents q1"
      and cnt1: "q_count q1 + 1 = q_count q" and cap1: "q_capacity q1 = q_capacity q"
      by blast
    from cont sub se obtain x where x: "u = int x" "x < ?n" by auto
    then have gn: "getNeighbors g u = Inr (adjacencyList g ! x)"
      by (simp add: getNeighbors_def)
    from "1.prems"(1) x(2) have la: "list_all (\<lambda>(v, w). v < ?n) (adjacencyList g ! x)"
      by (auto simp: wf_graph_def list_all_iff dest!: nth_mem)
    have inv1: "bfs_inv g (visited, tree, q1, enq)"
      using len tn wq1 cap cap1 cont sub cnt cnt1 dist se by (auto simp: bfs_inv_def)
    have "0 \<le> u" "u < int ?n" using x by auto
    from bfs_for_inv[OF inv1 this la]
    obtain s1 where f: "bfs_for u (adjacencyList g ! x) (visited, tree, q1, enq) = Inr s1"
      and inv2: "bfs_inv g s1" by blast
    from "1.IH"[OF False deq refl gn f "1.prems"(1) inv2] False deq gn f
    show ?thesis by (subst bfs_loop.simps) simp
  qed
qed

text \<open>
  C10. On a well-formed graph with a valid start vertex \<open>bfs\<close> returns. The values passed
  to \<open>enqueue\<close> are exactly the vertices marked visited, none is passed twice, so there
  are at most \<open>vertexCount\<close> of them, and "Queue is full" is never thrown.
\<close>

theorem bfs_never_overflows:
  assumes wf: "wf_graph g" and start: "0 \<le> start" "start < getVertexCount g"
  shows "\<exists>visited tree q enq.
           bfs_run g start = Inr (visited, tree, q, enq) \<and> bfs g start = Inr tree \<and>
           distinct enq \<and> length enq \<le> numVertices g \<and>
           set enq = {int v |v. v < numVertices g \<and> visited ! v} \<and>
           bfs_run g start \<noteq> Inl (GraphException Queue_is_full)"
proof -
  let ?n = "numVertices g"
  from start have n0: "0 < ?n" and sn: "nat start < ?n" by (auto simp: getVertexCount_def)
  define tree where "tree = \<lparr>numVertices = ?n, adjacencyList = replicate ?n []\<rparr>"
  have gn: "Graph_new (int ?n) = Inr tree" by (simp add: Graph_new_def tree_def)
  obtain q where qn: "Queue_new (int ?n) = Inr q" by (simp add: Queue_new_def)
  from Queue_new_wf[OF _ qn] n0 have wq: "wf_queue q" and qc: "q_contents q = []"
    and cap: "q_capacity q = ?n" and cnt: "q_count q = 0" by auto
  from enqueue_wf[OF wq, of start] cap cnt n0 obtain q' where
    enq: "enqueue q start = Inr q'" and wq': "wf_queue q'"
    and cont: "q_contents q' = [start]" and cnt': "q_count q' = 1" and cap': "q_capacity q' = ?n"
    using qc by auto
  let ?vis = "(replicate ?n False)[nat start := True]"
  have "{int v |v. v < ?n \<and> ?vis ! v} = {start}"
    using sn start(1) by (auto simp: nth_list_update)
  then have "bfs_inv g (?vis, tree, q', [start])"
    using wq' cont cnt' cap' by (simp add: bfs_inv_def tree_def)
  from bfs_loop_inv[OF wf this] obtain s' where
    loop: "bfs_loop g (?vis, tree, q', [start]) = Inr s'" and inv: "bfs_inv g s'" by blast
  obtain visited t' q'' enq' where s': "s' = (visited, t', q'', enq')" by (cases s') auto
  have run: "bfs_run g start = Inr (visited, t', q'', enq')"
    using gn qn enq loop start s' by (simp add: bfs_run_def Let_def getVertexCount_def)
  from inv s' have d: "distinct enq'" and se: "set enq' = {int v |v. v < ?n \<and> visited ! v}"
    by (auto simp: bfs_inv_def)
  have "set enq' \<subseteq> int ` {..<?n}" using se by auto
  then have "card (set enq') \<le> card (int ` {..<?n})" by (intro card_mono) auto
  also have "\<dots> = ?n" by (simp add: card_image)
  finally have "length enq' \<le> ?n" using d by (simp add: distinct_card)
  with run d se show ?thesis by (auto simp: bfs_def)
qed

theorem bfs_never_overflows_witness:
  "wf_graph triangle \<and> (0::int) \<le> 0 \<and> 0 < getVertexCount triangle \<and>
   (\<exists>visited tree q enq.
      bfs_run triangle 0 = Inr (visited, tree, q, enq) \<and> bfs triangle 0 = Inr tree \<and>
      distinct enq \<and> length enq \<le> numVertices triangle \<and>
      set enq = {int v |v. v < numVertices triangle \<and> visited ! v} \<and>
      bfs_run triangle 0 \<noteq> Inl (GraphException Queue_is_full))"
proof -
  have s: "(0::int) \<le> 0" "0 < getVertexCount triangle"
    by (simp_all add: getVertexCount_def triangle_def)
  from bfs_never_overflows[OF wf_triangle s] wf_triangle s show ?thesis by blast
qed

section \<open>kruskal: which edges are collected\<close>

text \<open>
  A graph made by the constructor, \<open>addEdge\<close> and \<open>removeEdge\<close> is described by the
  list \<open>es\<close> of its undirected edges \<open>(u, v, w)\<close>, the most recently added first:
  \<open>adj_of es x\<close> is the neighbour list of \<open>x\<close>, \<open>addEdge\<close> puts an edge in front and
  \<open>removeEdge(u, v)\<close> deletes the first edge between \<open>u\<close> and \<open>v\<close> (\<open>del_edge\<close>).
  \<open>undirected_edges\<close> writes each edge as kruskal's triple \<open>(w, min u v, max u v)\<close>;
  \<open>proper_edges\<close> keeps the edges with two distinct endpoints.
\<close>

fun adj_of :: "(nat \<times> nat \<times> int) list \<Rightarrow> nat \<Rightarrow> Neighbor list" where
  "adj_of [] x = []"
| "adj_of ((u, v, w) # es) x =
     (if x = v then [(u, w)] else []) @ (if x = u then [(v, w)] else []) @ adj_of es x"

definition graph_edges :: "Graph \<Rightarrow> (nat \<times> nat \<times> int) list \<Rightarrow> bool" where
  "graph_edges g es =
     (list_all (\<lambda>(u, v, w). u < numVertices g \<and> v < numVertices g) es \<and>
      adjacencyList g = map (adj_of es) [0..<numVertices g])"

fun del_edge :: "nat \<Rightarrow> nat \<Rightarrow> (nat \<times> nat \<times> int) list \<Rightarrow> (nat \<times> nat \<times> int) list" where
  "del_edge u v [] = []"
| "del_edge u v ((a, b, w) # es) =
     (if (a = u \<and> b = v) \<or> (a = v \<and> b = u) then es else (a, b, w) # del_edge u v es)"

definition undirected_edges :: "(nat \<times> nat \<times> int) list \<Rightarrow> Edge multiset" where
  "undirected_edges es = mset (map (\<lambda>(u, v, w). (w, min u v, max u v)) es)"

definition proper_edges :: "(nat \<times> nat \<times> int) list \<Rightarrow> (nat \<times> nat \<times> int) list" where
  "proper_edges es = filter (\<lambda>(u, v, w). u \<noteq> v) es"

lemma graph_edges_new: "Graph_new n = Inr g \<Longrightarrow> graph_edges g []"
  by (auto simp: Graph_new_def graph_edges_def split: if_splits intro!: nth_equalityI)

lemma graph_edges_addEdge:
  assumes "graph_edges g es" "addEdge g u v w = Inr g'"
  shows "graph_edges g' ((nat u, nat v, w) # es)"
proof -
  let ?n = "numVertices g"
  from assms(2) have rng: "0 \<le> u" "u < int ?n" "0 \<le> v" "v < int ?n"
    and g': "g' = g\<lparr>adjacencyList := ((adjacencyList g)[nat u := (nat v, w) # adjacencyList g ! nat u])
                 [nat v := (nat u, w) # ((adjacencyList g)[nat u := (nat v, w) # adjacencyList g ! nat u]) ! nat v]\<rparr>"
    by (auto simp: addEdge_def Let_def split: if_splits)
  from assms(1) have adj: "adjacencyList g = map (adj_of es) [0..<?n]"
    and la: "list_all (\<lambda>(u, v, w). u < ?n \<and> v < ?n) es" by (auto simp: graph_edges_def)
  have nn: "nat u < ?n" "nat v < ?n" using rng by auto
  have "adjacencyList g' = map (adj_of ((nat u, nat v, w) # es)) [0..<?n]"
    using nn by (intro nth_equalityI) (auto simp: g' adj nth_list_update)
  with la nn show ?thesis by (simp add: graph_edges_def g')
qed

lemma remove_first_append:
  "d \<notin> fst ` set xs \<Longrightarrow> remove_first d (xs @ ys) = xs @ remove_first d ys"
  by (induction xs) auto

lemma adj_of_del_edge_other:
  "x \<noteq> u \<Longrightarrow> x \<noteq> v \<Longrightarrow> adj_of (del_edge u v es) x = adj_of es x"
  by (induction u v es rule: del_edge.induct) auto

lemma adj_of_del_edge_left:
  "u \<noteq> v \<Longrightarrow> adj_of (del_edge u v es) u = remove_first v (adj_of es u)"
  by (induction u v es rule: del_edge.induct) auto

lemma adj_of_del_edge_right:
  "u \<noteq> v \<Longrightarrow> adj_of (del_edge u v es) v = remove_first u (adj_of es v)"
  by (induction u v es rule: del_edge.induct) auto

lemma adj_of_del_edge_loop:
  "adj_of (del_edge u u es) u = remove_first u (remove_first u (adj_of es u))"
  by (induction es) auto

lemma del_edge_subset: "set (del_edge u v es) \<subseteq> set es"
  by (induction u v es rule: del_edge.induct) auto

lemma graph_edges_removeEdge:
  assumes "graph_edges g es" "removeEdge g u v = Inr g'"
  shows "graph_edges g' (del_edge (nat u) (nat v) es)"
proof -
  let ?n = "numVertices g"
  let ?a = "adjacencyList g"
  from assms(2) have rng: "0 \<le> u" "u < int ?n" "0 \<le> v" "v < int ?n"
    and g': "g' = g\<lparr>adjacencyList := (?a[nat u := remove_first (nat v) (?a ! nat u)])
                 [nat v := remove_first (nat u) ((?a[nat u := remove_first (nat v) (?a ! nat u)]) ! nat v)]\<rparr>"
    by (auto simp: removeEdge_def Let_def split: if_splits)
  from assms(1) have adj: "?a = map (adj_of es) [0..<?n]"
    and la: "list_all (\<lambda>(u, v, w). u < ?n \<and> v < ?n) es" by (auto simp: graph_edges_def)
  have la': "list_all (\<lambda>(u, v, w). u < ?n \<and> v < ?n) (del_edge (nat u) (nat v) es)"
    using la del_edge_subset[of "nat u" "nat v" es] by (auto simp: list_all_iff)
  have "adjacencyList g' = map (adj_of (del_edge (nat u) (nat v) es)) [0..<?n]"
  proof (cases "nat u = nat v")
    case True
    with rng show ?thesis
      by (intro nth_equalityI)
         (auto simp: g' adj nth_list_update adj_of_del_edge_loop adj_of_del_edge_other)
  next
    case False
    with rng show ?thesis
      by (intro nth_equalityI)
         (auto simp: g' adj nth_list_update adj_of_del_edge_left adj_of_del_edge_right
            adj_of_del_edge_other)
  qed
  with la' show ?thesis by (simp add: graph_edges_def g')
qed

definition collected :: "nat \<Rightarrow> Neighbor list \<Rightarrow> Edge list" where
  "collected u ns = map (\<lambda>(v, w). (w, u, v)) (filter (\<lambda>(v, w). u < v) ns)"

lemma collected_simps [simp]:
  "collected u [] = []"
  "collected u ((v, w) # ns) = (if u < v then (w, u, v) # collected u ns else collected u ns)"
  "collected u (xs @ ys) = collected u xs @ collected u ys"
  by (simp_all add: collected_def)

lemma collect_for_eq:
  "length (acc @ collected u ns) \<le> 500 \<Longrightarrow> collect_for u ns acc = Inr (acc @ collected u ns)"
proof (induction u ns acc rule: collect_for.induct)
  case (1 u edges)
  then show ?case by simp
next
  case (2 u v w ns edges)
  show ?case
  proof (cases "u < v")
    case True
    with "2.prems" have "\<not> length edges \<ge> 500" by simp
    with "2.IH"(1)[OF True this] "2.prems" True show ?thesis by simp
  next
    case False
    with "2.IH"(2)[OF False] "2.prems" show ?thesis by simp
  qed
qed

lemma collect_edges_eq:
  "list_all (\<lambda>u. u < numVertices g) us \<Longrightarrow>
   length (acc @ concat (map (\<lambda>u. collected u (adjacencyList g ! u)) us)) \<le> 500 \<Longrightarrow>
   collect_edges g us acc = Inr (acc @ concat (map (\<lambda>u. collected u (adjacencyList g ! u)) us))"
proof (induction us arbitrary: acc)
  case Nil
  then show ?case by simp
next
  case (Cons u us)
  let ?c = "collected u (adjacencyList g ! u)"
  from Cons.prems(1) have gn: "getNeighbors g (int u) = Inr (adjacencyList g ! u)"
    by (simp add: getNeighbors_def)
  from Cons.prems(2) have "length (acc @ ?c) \<le> 500" by simp
  then have cf: "collect_for u (adjacencyList g ! u) acc = Inr (acc @ ?c)"
    by (rule collect_for_eq)
  from Cons.IH[of "acc @ ?c"] Cons.prems gn cf show ?case by simp
qed

lemma mset_concat_map_append:
  "mset (concat (map (\<lambda>u. f u @ h u) xs)) = mset (concat (map f xs)) + mset (concat (map h xs))"
  by (induction xs) auto

lemma concat_map_single_point:
  "u0 < n \<Longrightarrow> (\<And>u. u \<noteq> u0 \<Longrightarrow> f u = []) \<Longrightarrow> concat (map f [0..<n]) = f u0"
proof (induction n)
  case 0
  then show ?case by simp
next
  case (Suc n)
  show ?case
  proof (cases "u0 = n")
    case True
    then have "\<forall>u \<in> set [0..<n]. f u = []" using Suc.prems(2) by auto
    then have "concat (map f [0..<n]) = []" by simp
    with True show ?thesis by simp
  next
    case False
    with Suc.prems have "u0 < n" by simp
    from Suc.IH[OF this Suc.prems(2)] Suc.prems(2)[of n] False show ?thesis by simp
  qed
qed

lemma concat_map_all_empty: "(\<And>u. f u = []) \<Longrightarrow> concat (map f xs) = []"
  by simp

lemma collected_new_edge:
  assumes "a < n" "b < n"
  shows "concat (map (\<lambda>u. collected u ((if u = b then [(a, w)] else []) @ (if u = a then [(b, w)] else []))) [0..<n])
         = (if a \<noteq> b then [(w, min a b, max a b)] else [])"
proof (cases "a = b")
  case True
  then show ?thesis by (intro trans[OF concat_map_all_empty]) auto
next
  case False
  let ?f = "\<lambda>u. collected u ((if u = b then [(a, w)] else []) @ (if u = a then [(b, w)] else []))"
  have "concat (map ?f [0..<n]) = ?f (min a b)"
    using assms False by (intro concat_map_single_point) (auto simp: min_def split: if_splits)
  also have "\<dots> = [(w, min a b, max a b)]"
  proof (cases "a < b")
    case True
    then show ?thesis by (simp add: min_def max_def)
  next
    case ge: False
    with False have "b < a" by simp
    then show ?thesis by (simp add: min_def max_def)
  qed
  finally show ?thesis using False by simp
qed

lemma mset_collected_adj_of:
  "list_all (\<lambda>(u, v, w). u < n \<and> v < n) es \<Longrightarrow>
   mset (concat (map (\<lambda>u. collected u (adj_of es u)) [0..<n])) = undirected_edges (proper_edges es)"
proof (induction es)
  case Nil
  then show ?case by (simp add: undirected_edges_def proper_edges_def)
next
  case (Cons e es)
  obtain a b w where e: "e = (a, b, w)" by (cases e) auto
  from Cons.prems e have ab: "a < n" "b < n" and rest: "list_all (\<lambda>(u, v, w). u < n \<and> v < n) es"
    by auto
  let ?x = "\<lambda>u. (if u = b then [(a, w)] else []) @ (if u = a then [(b, w)] else [])"
  have "mset (concat (map (\<lambda>u. collected u (adj_of (e # es) u)) [0..<n]))
        = mset (concat (map (\<lambda>u. collected u (?x u) @ collected u (adj_of es u)) [0..<n]))"
    by (simp add: e)
  also have "\<dots> = mset (concat (map (\<lambda>u. collected u (?x u)) [0..<n]))
                 + mset (concat (map (\<lambda>u. collected u (adj_of es u)) [0..<n]))"
    by (rule mset_concat_map_append)
  also have "concat (map (\<lambda>u. collected u (?x u)) [0..<n]) = (if a \<noteq> b then [(w, min a b, max a b)] else [])"
    using collected_new_edge[OF ab] .
  also have "mset (concat (map (\<lambda>u. collected u (adj_of es u)) [0..<n])) = undirected_edges (proper_edges es)"
    using Cons.IH[OF rest] .
  finally show ?case by (simp add: e undirected_edges_def proper_edges_def)
qed

definition loop1 :: Graph where
  "loop1 = \<lparr>numVertices = 1, adjacencyList = [[(0, 7), (0, 7)]]\<rparr>"

lemma loop1_built: "graph_of_edges 1 [(0, 0, 7)] = Inr loop1"
  by code_simp

lemma loop1_edges: "graph_edges loop1 [(0, 0, 7)]"
  by code_simp

lemma loop1_collect: "collect_edges loop1 [0..<numVertices loop1] [] = Inr []"
  by code_simp

text \<open>
  C8, as stated: the collected multiset equals the multiset of all undirected edges.
  It fails on the graph made by \<open>addEdge(0, 0, 7)\<close>: a self-loop puts two entries
  \<open>(0, 7)\<close> into the list of vertex 0 and the test \<open>u < v\<close> keeps neither.
\<close>

theorem self_loop_not_collected:
  "\<not> (\<forall>g es. graph_edges g es \<and> length es \<le> 500 \<longrightarrow>
        (\<exists>edges. collect_edges g [0..<numVertices g] [] = Inr edges \<and>
           mset edges = undirected_edges es))"
proof
  assume "\<forall>g es. graph_edges g es \<and> length es \<le> 500 \<longrightarrow>
        (\<exists>edges. collect_edges g [0..<numVertices g] [] = Inr edges \<and>
           mset edges = undirected_edges es)"
  then have "\<exists>edges. collect_edges loop1 [0..<numVertices loop1] [] = Inr edges \<and>
           mset edges = undirected_edges [(0, 0, 7)]"
    using loop1_edges by force
  with loop1_collect show False by (simp add: undirected_edges_def)
qed

lemma collect_edges_proper:
  assumes "graph_edges g es" "length (proper_edges es) \<le> 500"
  shows "\<exists>edges. collect_edges g [0..<numVertices g] [] = Inr edges \<and>
           mset edges = undirected_edges (proper_edges es)"
proof -
  let ?n = "numVertices g"
  let ?c = "concat (map (\<lambda>u. collected u (adjacencyList g ! u)) [0..<?n])"
  from assms(1) have adj: "adjacencyList g = map (adj_of es) [0..<?n]"
    and la: "list_all (\<lambda>(u, v, w). u < ?n \<and> v < ?n) es" by (auto simp: graph_edges_def)
  have "?c = concat (map (\<lambda>u. collected u (adj_of es u)) [0..<?n])"
    by (rule arg_cong[where f = concat], rule map_cong[OF refl]) (simp add: adj)
  with mset_collected_adj_of[OF la] have m: "mset ?c = undirected_edges (proper_edges es)" by simp
  then have "size (mset ?c) = size (undirected_edges (proper_edges es))" by simp
  then have "length ?c = length (proper_edges es)" by (simp add: undirected_edges_def)
  with assms(2) have "length ([] @ ?c) \<le> 500" by simp
  moreover have "list_all (\<lambda>u. u < ?n) [0..<?n]" by (simp add: list_all_iff)
  ultimately have "collect_edges g [0..<?n] [] = Inr ([] @ ?c)" by (intro collect_edges_eq)
  with m show ?thesis by simp
qed

text \<open>
  C8, amended. For every graph with at most 500 undirected edges between distinct
  vertices, the scan of all neighbour lists with the test \<open>u < v\<close> collects exactly the
  multiset of these edges, each once; self-loops are not collected.
\<close>

theorem kruskal_collects_proper_edges:
  assumes "graph_edges g es" "length (proper_edges es) \<le> 500"
  shows "\<exists>edges. collect_edges g [0..<numVertices g] [] = Inr edges \<and>
           mset edges = undirected_edges (proper_edges es)"
  using assms by (rule collect_edges_proper)

lemma triangle_edges: "graph_edges triangle [(0, 2, 5), (1, 2, 2), (0, 1, 1)]"
  by code_simp

theorem kruskal_collects_proper_edges_witness:
  "graph_edges triangle [(0, 2, 5), (1, 2, 2), (0, 1, 1)] \<and>
   length (proper_edges [(0, 2, 5), (1, 2, 2), (0, 1, 1)]) \<le> 500 \<and>
   (\<exists>edges. collect_edges triangle [0..<numVertices triangle] [] = Inr edges \<and>
      mset edges = undirected_edges (proper_edges [(0, 2, 5), (1, 2, 2), (0, 1, 1)]))"
proof -
  have l: "length (proper_edges [(0::nat, 2::nat, 5::int), (1, 2, 2), (0, 1, 1)]) \<le> 500"
    by (simp add: proper_edges_def)
  from kruskal_collects_proper_edges[OF triangle_edges l] triangle_edges l show ?thesis by blast
qed

section \<open>dijkstra: the loop invariant\<close>

subsection \<open>Distances stay below \<open>INT_MAX\<close>\<close>

text \<open>
  \<open>weights_at_most g m\<close>: no weight in the graph exceeds \<open>m\<close>.
  \<open>spth g dist r vs v c\<close>: the vertices \<open>vs\<close>, all different and the last one visited
  first, lead from \<open>r\<close> along neighbour-list entries to \<open>v\<close> with the weights adding up to
  \<open>c\<close>, and every vertex on the way has a distance no larger than the weight of the way
  up to it. A finite distance is always the weight of such a way, so with non-negative
  weights it is at most \<open>(n - 1) * m\<close> and \<open>dist[u] + w\<close> is at most \<open>n * m\<close>.
\<close>

definition weights_at_most :: "Graph \<Rightarrow> int \<Rightarrow> bool" where
  "weights_at_most g m = list_all (list_all (\<lambda>(v, w). w \<le> m)) (adjacencyList g)"

inductive spth :: "Graph \<Rightarrow> int list \<Rightarrow> nat \<Rightarrow> nat list \<Rightarrow> nat \<Rightarrow> int \<Rightarrow> bool"
  for g :: Graph and dist :: "int list" and r :: nat where
  spth_start: "r < numVertices g \<Longrightarrow> dist ! r \<le> 0 \<Longrightarrow> spth g dist r [r] r 0"
| spth_step: "spth g dist r vs u c \<Longrightarrow> (v, w) \<in> set (adjacencyList g ! u) \<Longrightarrow>
     v < numVertices g \<Longrightarrow> v \<notin> set vs \<Longrightarrow> dist ! v \<le> c + w \<Longrightarrow>
     spth g dist r (v # vs) v (c + w)"

lemma nonneg_weights_nth:
  assumes "nonneg_weights g" "v < length (adjacencyList g)" "e \<in> set (adjacencyList g ! v)"
  shows "0 \<le> snd e"
proof -
  from assms(2) have "adjacencyList g ! v \<in> set (adjacencyList g)" by simp
  with assms(1) have "list_all (\<lambda>(v, w). 0 \<le> w) (adjacencyList g ! v)"
    by (simp add: nonneg_weights_def list_all_iff)
  with assms(3) show ?thesis by (cases e) (auto simp: list_all_iff)
qed

lemma weights_at_most_nth:
  assumes "weights_at_most g m" "v < length (adjacencyList g)" "e \<in> set (adjacencyList g ! v)"
  shows "snd e \<le> m"
proof -
  from assms(2) have "adjacencyList g ! v \<in> set (adjacencyList g)" by simp
  with assms(1) have "list_all (\<lambda>(v, w). w \<le> m) (adjacencyList g ! v)"
    by (simp add: weights_at_most_def list_all_iff)
  with assms(3) show ?thesis by (cases e) (auto simp: list_all_iff)
qed

lemma spth_mono:
  assumes "spth g dist r vs v c" and le: "\<And>x. dist' ! x \<le> dist ! x"
  shows "spth g dist' r vs v c"
  using assms(1)
proof (induction rule: spth.induct)
  case spth_start
  then show ?case using le[of r] by (intro spth.spth_start) simp_all
next
  case (spth_step vs u c v w)
  from spth_step.hyps(5) le[of v] have "dist' ! v \<le> c + w" by simp
  with spth_step.IH spth_step.hyps(2,3,4) show ?case by (intro spth.spth_step)
qed

lemma spth_visited:
  assumes nn: "nonneg_weights g" and al: "length (adjacencyList g) = numVertices g"
    and sp: "spth g dist r vs v c"
  shows "(\<forall>x \<in> set vs. x < numVertices g \<and> dist ! x \<le> c) \<and> v \<in> set vs \<and> distinct vs"
  using sp
proof (induction rule: spth.induct)
  case spth_start
  then show ?case by simp
next
  case (spth_step vs u c v w)
  from spth_step.IH have un: "u < numVertices g" by auto
  from nonneg_weights_nth[OF nn _ spth_step.hyps(2)] un al have "0 \<le> w" by simp
  with spth_step.IH spth_step.hyps(3,4,5) show ?case by fastforce
qed

lemma spth_weight:
  assumes nn: "nonneg_weights g" and wm: "weights_at_most g m"
    and al: "length (adjacencyList g) = numVertices g"
    and sp: "spth g dist r vs v c"
  shows "0 \<le> c \<and> c \<le> (int (length vs) - 1) * m \<and> vs \<noteq> []"
  using sp
proof (induction rule: spth.induct)
  case spth_start
  then show ?case by simp
next
  case (spth_step vs u c v w)
  from spth_visited[OF nn al spth_step.hyps(1)] have un: "u < numVertices g" by auto
  from nonneg_weights_nth[OF nn _ spth_step.hyps(2)] un al have w0: "0 \<le> w" by simp
  from weights_at_most_nth[OF wm _ spth_step.hyps(2)] un al have wm: "w \<le> m" by simp
  from spth_step.IH have "c + w \<le> (int (length vs) - 1) * m + m" using wm by simp
  also have "\<dots> = (int (length (v # vs)) - 1) * m" by (simp add: algebra_simps)
  finally show ?case using spth_step.IH w0 by simp
qed

lemma spth_length:
  assumes nn: "nonneg_weights g" and al: "length (adjacencyList g) = numVertices g"
    and sp: "spth g dist r vs v c"
  shows "length vs \<le> numVertices g"
proof -
  from spth_visited[OF nn al sp] have "set vs \<subseteq> {..<numVertices g}" "distinct vs" by auto
  then have "card (set vs) \<le> card {..<numVertices g}" by (intro card_mono) simp_all
  with \<open>distinct vs\<close> show ?thesis by (simp add: distinct_card)
qed

lemma spth_next_fits:
  assumes nn: "nonneg_weights g" and wm: "weights_at_most g m"
    and nm: "int (numVertices g) * m \<le> INT_MAX"
    and al: "length (adjacencyList g) = numVertices g"
    and sp: "spth g dist r vs u c" and e: "e \<in> set (adjacencyList g ! u)"
  shows "0 \<le> c + snd e \<and> c + snd e \<le> INT_MAX"
proof -
  from spth_visited[OF nn al sp] have un: "u < numVertices g" by auto
  from nonneg_weights_nth[OF nn _ e] un al have w0: "0 \<le> snd e" by simp
  from weights_at_most_nth[OF wm _ e] un al have w1: "snd e \<le> m" by simp
  from w0 w1 have m0: "0 \<le> m" by simp
  from spth_weight[OF nn wm al sp] have c: "0 \<le> c" "c \<le> (int (length vs) - 1) * m" by simp_all
  from c(2) w1 have "c + snd e \<le> (int (length vs) - 1) * m + m" by simp
  also have "\<dots> = int (length vs) * m" by (simp add: algebra_simps)
  also from spth_length[OF nn al sp] m0 have "\<dots> \<le> int (numVertices g) * m"
    by (intro mult_right_mono) simp_all
  finally show ?thesis using nm c(1) w0 by simp
qed


text \<open>
  \<open>relaxed g dist v\<close>: no edge out of \<open>v\<close> can improve a distance. \<open>dijkstra_inv\<close> is the
  invariant of the \<open>while\<close> loop for the start vertex \<open>r\<close> on a graph with non-negative
  weights; \<open>relax_inv\<close> is the invariant of the \<open>for\<close> loop over the neighbours of a
  vertex \<open>u\<close> that was popped with its current distance \<open>p\<close>. The priority queue is
  read as the multiset \<open>pq_mset\<close> of its elements.
  \<open>dijkstra_tree_edges\<close> lists the edges the final loop adds, in the order of the loop.
  The invariants hold when no sum \<open>dist[u] + w\<close> wraps around, which the bound
  \<open>n * m \<le> INT_MAX\<close> on the weights guarantees.
\<close>

definition relaxed :: "Graph \<Rightarrow> int list \<Rightarrow> nat \<Rightarrow> bool" where
  "relaxed g dist v = (\<forall>e \<in> set (adjacencyList g ! v). dist ! fst e \<le> dist ! v + snd e)"

definition relax_inv :: "Graph \<Rightarrow> nat \<Rightarrow> nat \<Rightarrow> int \<Rightarrow> dijkstra_state \<Rightarrow> bool" where
  "relax_inv g r u p s =
     (case s of (dist, prev, pq) \<Rightarrow>
        length dist = numVertices g \<and> length prev = numVertices g \<and> pq_invariant pq \<and>
        u < numVertices g \<and> dist ! u = p \<and>
        (\<forall>e \<in># pq_mset pq. 0 \<le> fst e \<and> fst e < int (numVertices g) \<and>
             dist ! nat (fst e) \<le> snd e \<and> p \<le> snd e \<and> snd e < INT_MAX) \<and>
        (\<forall>v < numVertices g. v \<noteq> u \<longrightarrow>
             (int v, dist ! v) \<in># pq_mset pq \<or> relaxed g dist v) \<and>
        (\<forall>v < numVertices g. prev ! v \<noteq> - 1 \<longrightarrow>
             0 \<le> prev ! v \<and> prev ! v < int (numVertices g) \<and>
             (v, dist ! v - dist ! nat (prev ! v)) \<in> set (adjacencyList g ! nat (prev ! v)) \<and>
             dist ! nat (prev ! v) \<le> p) \<and>
        (\<forall>v < numVertices g. 0 \<le> dist ! v \<and> dist ! v \<le> INT_MAX) \<and>
        r < numVertices g \<and> dist ! r = 0 \<and>
        (\<forall>v < numVertices g. (prev ! v \<noteq> - 1) = (dist ! v < INT_MAX \<and> v \<noteq> r)) \<and>
        (\<forall>v < numVertices g. dist ! v < INT_MAX \<longrightarrow> (\<exists>vs. spth g dist r vs v (dist ! v))))"

lemma relaxed_mono:
  assumes "relaxed g dist v" "dist' ! v = dist ! v" "\<And>y. dist' ! y \<le> dist ! y"
  shows "relaxed g dist' v"
  unfolding relaxed_def
proof
  fix e assume "e \<in> set (adjacencyList g ! v)"
  with assms(1) have "dist ! fst e \<le> dist ! v + snd e" by (simp add: relaxed_def)
  with assms(2) assms(3)[of "fst e"] show "dist' ! fst e \<le> dist' ! v + snd e" by simp
qed

lemma relax_inv_improve:
  assumes nn: "nonneg_weights g" and al: "length (adjacencyList g) = numVertices g"
    and inv: "relax_inv g r u p (dist, prev, pq)"
    and e: "(y, w) \<in> set (adjacencyList g ! u)" and w: "0 \<le> w"
    and y: "y < numVertices g" and lt: "p + w < dist ! y"
    and ins: "insert_pq pq (int y) (p + w) = Inr pq'"
  shows "relax_inv g r u p (dist[y := p + w], prev[y := int u], pq')"
proof -
  let ?n = "numVertices g"
  let ?d = "p + w"
  let ?dist = "dist[y := ?d]"
  let ?prev = "prev[y := int u]"
  from inv have len: "length dist = ?n" "length prev = ?n" and pqi: "pq_invariant pq"
    and un: "u < ?n" and du: "dist ! u = p"
    and Q: "\<And>e. e \<in># pq_mset pq \<Longrightarrow> 0 \<le> fst e \<and> fst e < int ?n \<and>
               dist ! nat (fst e) \<le> snd e \<and> p \<le> snd e \<and> snd e < INT_MAX"
    and R: "\<And>v. v < ?n \<Longrightarrow> v \<noteq> u \<Longrightarrow>
               (int v, dist ! v) \<in># pq_mset pq \<or> relaxed g dist v"
    and P: "\<And>v. v < ?n \<Longrightarrow> prev ! v \<noteq> - 1 \<Longrightarrow>
               0 \<le> prev ! v \<and> prev ! v < int ?n \<and>
               (v, dist ! v - dist ! nat (prev ! v)) \<in> set (adjacencyList g ! nat (prev ! v)) \<and>
               dist ! nat (prev ! v) \<le> p"
    and B: "\<And>v. v < ?n \<Longrightarrow> 0 \<le> dist ! v \<and> dist ! v \<le> INT_MAX"
    and rn: "r < ?n" and dr: "dist ! r = 0"
    and S: "\<And>v. v < ?n \<Longrightarrow> (prev ! v \<noteq> - 1) = (dist ! v < INT_MAX \<and> v \<noteq> r)"
    and K: "\<And>v. v < ?n \<Longrightarrow> dist ! v < INT_MAX \<Longrightarrow> \<exists>vs. spth g dist r vs v (dist ! v)"
    by (auto simp: relax_inv_def)
  from B[OF un] du have p0: "0 \<le> p" by simp
  from lt B[OF y] have dm: "p + w < INT_MAX" by simp
  have yr: "y \<noteq> r" using lt dr p0 w by auto
  from insert_pq_invariant[OF pqi ins] have pqi': "pq_invariant pq'"
    and ms: "pq_mset pq' = add_mset (int y, ?d) (pq_mset pq)" by auto
  have yu: "y \<noteq> u" using lt du w by auto
  have le: "?dist ! v \<le> dist ! v" for v
    using lt y len by (cases "v = y") simp_all
  have Q': "0 \<le> fst e \<and> fst e < int ?n \<and> ?dist ! nat (fst e) \<le> snd e \<and> p \<le> snd e \<and>
            snd e < INT_MAX"
    if "e \<in># pq_mset pq'" for e
  proof (cases "e = (int y, ?d)")
    case True
    with y len w dm show ?thesis by simp
  next
    case False
    with that ms have "e \<in># pq_mset pq" by simp
    from Q[OF this] le[of "nat (fst e)"] show ?thesis by linarith
  qed
  have R': "(int v, ?dist ! v) \<in># pq_mset pq' \<or> relaxed g ?dist v"
    if v: "v < ?n" "v \<noteq> u" for v
  proof (cases "v = y")
    case True
    with y len ms show ?thesis by simp
  next
    case False
    then have dv: "?dist ! v = dist ! v" by simp
    from R[OF v(1,2)] have "(int v, dist ! v) \<in># pq_mset pq \<or> relaxed g dist v" .
    then show ?thesis
    proof
      assume "(int v, dist ! v) \<in># pq_mset pq"
      with dv ms show ?thesis by simp
    next
      assume "relaxed g dist v"
      from relaxed_mono[OF this dv le] show ?thesis by simp
    qed
  qed
  have P': "0 \<le> ?prev ! v \<and> ?prev ! v < int ?n \<and>
            (v, ?dist ! v - ?dist ! nat (?prev ! v)) \<in> set (adjacencyList g ! nat (?prev ! v)) \<and>
            ?dist ! nat (?prev ! v) \<le> p"
    if v: "v < ?n" "?prev ! v \<noteq> - 1" for v
  proof (cases "v = y")
    case True
    with y len un du yu e show ?thesis by simp
  next
    case False
    then have pv: "?prev ! v = prev ! v" and dv: "?dist ! v = dist ! v" by simp_all
    from P[OF v(1)] v(2) pv have p: "0 \<le> prev ! v" "prev ! v < int ?n"
      "(v, dist ! v - dist ! nat (prev ! v)) \<in> set (adjacencyList g ! nat (prev ! v))"
      "dist ! nat (prev ! v) \<le> p" by auto
    have "nat (prev ! v) \<noteq> y" using p(4) lt w by auto
    then have "?dist ! nat (prev ! v) = dist ! nat (prev ! v)" by simp
    with p pv dv show ?thesis by simp
  qed
  have B': "0 \<le> ?dist ! v \<and> ?dist ! v \<le> INT_MAX" if "v < ?n" for v
  proof (cases "v = y")
    case True
    with y len p0 w lt B[OF y] show ?thesis by simp
  next
    case False
    with B[OF that] show ?thesis by simp
  qed
  have S': "(?prev ! v \<noteq> - 1) = (?dist ! v < INT_MAX \<and> v \<noteq> r)" if "v < ?n" for v
  proof (cases "v = y")
    case True
    with y len yr lt B[OF y] show ?thesis by simp
  next
    case False
    with S[OF that] show ?thesis by simp
  qed
  have K': "\<exists>vs. spth g ?dist r vs v (?dist ! v)" if v: "v < ?n" "?dist ! v < INT_MAX" for v
  proof (cases "v = y")
    case True
    from dm w du have "dist ! u < INT_MAX" by simp
    from K[OF un this] du obtain vs where sp: "spth g dist r vs u p" by auto
    from spth_visited[OF nn al sp] have "\<forall>x \<in> set vs. dist ! x \<le> p" by simp
    with lt w have ny: "y \<notin> set vs" by auto
    from spth_mono[OF sp le] have sp': "spth g ?dist r vs u p" .
    have "?dist ! y \<le> p + w" using y len by simp
    from spth_step[OF sp' e y ny this] have "spth g ?dist r (y # vs) y (p + w)" .
    moreover have "?dist ! v = p + w" using True y len by simp
    ultimately show ?thesis using True by auto
  next
    case False
    then have dv: "?dist ! v = dist ! v" by simp
    with v(2) have "dist ! v < INT_MAX" by simp
    from K[OF v(1) this] obtain vs where "spth g dist r vs v (dist ! v)" ..
    from spth_mono[OF this le] dv show ?thesis by auto
  qed
  have dr': "?dist ! r = 0" using yr dr by simp
  have du': "?dist ! u = p" using yu du by simp
  show ?thesis
    unfolding relax_inv_def using len pqi' un du' Q' R' P' B' rn dr' S' K' by simp
qed

lemma dijkstra_for_relax:
  "nonneg_weights g \<Longrightarrow> length (adjacencyList g) = numVertices g \<Longrightarrow>
   relax_inv g r u p s \<Longrightarrow> set ns \<subseteq> set (adjacencyList g ! u) \<Longrightarrow>
   (\<forall>e \<in> set ns. 0 \<le> snd e \<and> p + snd e \<le> INT_MAX) \<Longrightarrow>
   dijkstra_for (int u) ns s = Inr s' \<Longrightarrow>
   relax_inv g r u p s' \<and> (\<forall>v. fst s' ! v \<le> fst s ! v) \<and>
   (\<forall>e \<in> set ns. fst s' ! fst e \<le> p + snd e)"
proof (induction "int u" ns s rule: dijkstra_for.induct)
  case (1 s)
  then show ?case by simp
next
  case (2 v w ns dist prev pq)
  let ?n = "numVertices g"
  note nn = "2.prems"(1) and al = "2.prems"(2) and inv = "2.prems"(3)
  from inv have len: "length dist = ?n" and du: "dist ! u = p" and un: "u < ?n"
    and B: "\<And>v. v < ?n \<Longrightarrow> 0 \<le> dist ! v \<and> dist ! v \<le> INT_MAX"
    by (auto simp: relax_inv_def)
  from "2.prems"(6) have rng: "\<not> (int u < 0 \<or> int u \<ge> int (length dist) \<or> v \<ge> length dist)"
    by (auto simp: Let_def split: if_splits)
  from rng len have vn: "v < ?n" by simp
  from "2.prems"(4,5) have e: "(v, w) \<in> set (adjacencyList g ! u)" and w: "0 \<le> w"
    and fit: "p + w \<le> INT_MAX"
    and sub: "set ns \<subseteq> set (adjacencyList g ! u)"
    and nn': "\<forall>e \<in> set ns. 0 \<le> snd e \<and> p + snd e \<le> INT_MAX"
    by auto
  from B[OF un] du have p0: "0 \<le> p" by simp
  from p0 w fit have "wrap_int (p + w) = p + w"
    by (intro wrap_int_id) (simp_all add: INT_MIN_def)
  with du have wr: "wrap_int (dist ! nat (int u) + w) = p + w" by simp
  show ?case
  proof (cases "p + w < dist ! v")
    case True
    with "2.prems"(6) rng wr obtain pq' where
      ins: "insert_pq pq (int v) (p + w) = Inr pq'"
      and r: "dijkstra_for (int u) ns (dist[v := p + w], prev[v := int u], pq') = Inr s'"
      by (auto simp: Let_def split: sum.splits)
    from relax_inv_improve[OF nn al inv e w vn True ins]
    have inv': "relax_inv g r u p (dist[v := p + w], prev[v := int u], pq')" .
    from True wr have lt: "wrap_int (dist ! nat (int u) + w) < dist ! v" by simp
    from ins wr have ins': "insert_pq pq (int v) (wrap_int (dist ! nat (int u) + w)) = Inr pq'"
      by simp
    from "2.hyps"(1)[OF rng refl lt ins' nn al _ sub nn'] inv' r wr
    have IH: "relax_inv g r u p s'" "\<And>x. fst s' ! x \<le> (dist[v := p + w]) ! x"
      "\<forall>e \<in> set ns. fst s' ! fst e \<le> p + snd e" by auto
    have le: "(dist[v := p + w]) ! x \<le> dist ! x" for x
      using True vn len by (cases "x = v") simp_all
    have "fst s' ! v \<le> p + w" using IH(2)[of v] vn len by simp
    moreover have "\<And>x. fst s' ! x \<le> dist ! x" using IH(2) le by (meson order_trans)
    ultimately show ?thesis using IH(1,3) by simp
  next
    case False
    with "2.prems"(6) rng wr have r: "dijkstra_for (int u) ns (dist, prev, pq) = Inr s'"
      by (simp add: Let_def)
    from False wr have nlt: "\<not> wrap_int (dist ! nat (int u) + w) < dist ! v" by simp
    from "2.hyps"(2)[OF rng refl nlt nn al inv sub nn' r]
    have IH: "relax_inv g r u p s'" "\<And>x. fst s' ! x \<le> dist ! x"
      "\<forall>e \<in> set ns. fst s' ! fst e \<le> p + snd e" by auto
    have "fst s' ! v \<le> p + w" using IH(2)[of v] False by simp
    with IH show ?thesis by simp
  qed
qed

lemma dijkstra_for_noop:
  "dijkstra_for u ns (dist, prev, pq) = Inr s' \<Longrightarrow>
   (\<forall>e \<in> set ns. dist ! fst e \<le> dist ! nat u + snd e \<and>
      INT_MIN \<le> dist ! nat u + snd e \<and> dist ! nat u + snd e \<le> INT_MAX) \<Longrightarrow>
   s' = (dist, prev, pq)"
proof (induction u ns "(dist, prev, pq)" rule: dijkstra_for.induct)
  case (1 u)
  then show ?case by simp
next
  case (2 u v w ns)
  from "2.prems"(1) have rng: "\<not> (u < 0 \<or> u \<ge> int (length dist) \<or> v \<ge> length dist)"
    by (auto simp: Let_def split: if_splits)
  from "2.prems"(2) have "wrap_int (dist ! nat u + w) = dist ! nat u + w"
    by (intro wrap_int_id) simp_all
  with "2.prems"(2) have nlt: "\<not> wrap_int (dist ! nat u + w) < dist ! v" by simp
  with "2.prems"(1) rng have "dijkstra_for u ns (dist, prev, pq) = Inr s'"
    by (simp add: Let_def)
  from "2.hyps"(2)[OF rng refl nlt this] "2.prems"(2) show ?case by simp
qed

definition dijkstra_inv :: "Graph \<Rightarrow> nat \<Rightarrow> dijkstra_state \<Rightarrow> bool" where
  "dijkstra_inv g r s =
     (case s of (dist, prev, pq) \<Rightarrow>
        length dist = numVertices g \<and> length prev = numVertices g \<and> pq_invariant pq \<and>
        (\<forall>e \<in># pq_mset pq. 0 \<le> fst e \<and> fst e < int (numVertices g) \<and>
             dist ! nat (fst e) \<le> snd e \<and> snd e < INT_MAX) \<and>
        (\<forall>v < numVertices g. (int v, dist ! v) \<in># pq_mset pq \<or> relaxed g dist v) \<and>
        (\<forall>v < numVertices g. prev ! v \<noteq> - 1 \<longrightarrow>
             0 \<le> prev ! v \<and> prev ! v < int (numVertices g) \<and>
             (v, dist ! v - dist ! nat (prev ! v)) \<in> set (adjacencyList g ! nat (prev ! v)) \<and>
             (\<forall>e \<in># pq_mset pq. dist ! nat (prev ! v) \<le> snd e)) \<and>
        (\<forall>v < numVertices g. 0 \<le> dist ! v \<and> dist ! v \<le> INT_MAX) \<and>
        r < numVertices g \<and> dist ! r = 0 \<and>
        (\<forall>v < numVertices g. (prev ! v \<noteq> - 1) = (dist ! v < INT_MAX \<and> v \<noteq> r)) \<and>
        (\<forall>v < numVertices g. dist ! v < INT_MAX \<longrightarrow> (\<exists>vs. spth g dist r vs v (dist ! v))))"

lemma dijkstra_step:
  assumes wf: "wf_graph g" and nn: "nonneg_weights g"
    and wm: "weights_at_most g m" and nm: "int (numVertices g) * m \<le> INT_MAX"
    and inv: "dijkstra_inv g r (dist, prev, pq)"
    and ex: "extractMin pq = Inr (u, pq1)"
    and gn: "getNeighbors g u = Inr ns"
    and rel: "dijkstra_for u ns (dist, prev, pq1) = Inr s'"
  shows "dijkstra_inv g r s'"
proof -
  let ?n = "numVertices g"
  from inv have len: "length dist = ?n" "length prev = ?n" and pqi: "pq_invariant pq"
    and Q: "\<And>e. e \<in># pq_mset pq \<Longrightarrow> 0 \<le> fst e \<and> fst e < int ?n \<and>
               dist ! nat (fst e) \<le> snd e \<and> snd e < INT_MAX"
    and R: "\<And>v. v < ?n \<Longrightarrow> (int v, dist ! v) \<in># pq_mset pq \<or> relaxed g dist v"
    and P: "\<And>v. v < ?n \<Longrightarrow> prev ! v \<noteq> - 1 \<Longrightarrow>
               0 \<le> prev ! v \<and> prev ! v < int ?n \<and>
               (v, dist ! v - dist ! nat (prev ! v)) \<in> set (adjacencyList g ! nat (prev ! v)) \<and>
               (\<forall>e \<in># pq_mset pq. dist ! nat (prev ! v) \<le> snd e)"
    and B: "\<And>v. v < ?n \<Longrightarrow> 0 \<le> dist ! v \<and> dist ! v \<le> INT_MAX"
    and rn: "r < ?n" and dr: "dist ! r = 0"
    and S: "\<And>v. v < ?n \<Longrightarrow> (prev ! v \<noteq> - 1) = (dist ! v < INT_MAX \<and> v \<noteq> r)"
    and K: "\<And>v. v < ?n \<Longrightarrow> dist ! v < INT_MAX \<Longrightarrow> \<exists>vs. spth g dist r vs v (dist ! v)"
    by (auto simp: dijkstra_inv_def)
  from extractMin_invariant[OF pqi ex] obtain p where pqi1: "pq_invariant pq1"
    and ms: "pq_mset pq = add_mset (u, p) (pq_mset pq1)"
    and mn: "\<And>e. e \<in># pq_mset pq \<Longrightarrow> p \<le> snd e" by blast
  have up: "(u, p) \<in># pq_mset pq" using ms by simp
  from Q[OF up] have u0: "0 \<le> u" and un: "nat u < ?n" and dup: "dist ! nat u \<le> p"
    and pm: "p < INT_MAX" by auto
  from gn u0 have ns: "ns = adjacencyList g ! nat u"
    by (auto simp: getNeighbors_def split: if_splits)
  from wf have al: "length (adjacencyList g) = ?n" by (simp add: wf_graph_def)
  have nonneg: "\<forall>e \<in> set ns. 0 \<le> snd e"
    using nonneg_weights_nth[OF nn] un al ns by auto
  from dup pm have "dist ! nat u < INT_MAX" by simp
  from K[OF un this] obtain vs where sp: "spth g dist r vs (nat u) (dist ! nat u)" ..
  have fits: "\<forall>e \<in> set ns. 0 \<le> dist ! nat u + snd e \<and> dist ! nat u + snd e \<le> INT_MAX"
    using spth_next_fits[OF nn wm nm al sp] ns by simp
  have sub1: "\<And>e. e \<in># pq_mset pq1 \<Longrightarrow> e \<in># pq_mset pq" using ms by simp
  show ?thesis
  proof (cases "dist ! nat u < p")
    case True
    have "(int (nat u), dist ! nat u) \<notin># pq_mset pq"
    proof
      assume "(int (nat u), dist ! nat u) \<in># pq_mset pq"
      from mn[OF this] True show False by simp
    qed
    with R[OF un] have "relaxed g dist (nat u)" by blast
    then have "\<forall>e \<in> set ns. dist ! fst e \<le> dist ! nat u + snd e"
      by (simp add: relaxed_def ns)
    with fits have "\<forall>e \<in> set ns. dist ! fst e \<le> dist ! nat u + snd e \<and>
        INT_MIN \<le> dist ! nat u + snd e \<and> dist ! nat u + snd e \<le> INT_MAX"
      by (auto simp: INT_MIN_def)
    from dijkstra_for_noop[OF rel this] have s': "s' = (dist, prev, pq1)" .
    have R1: "(int v, dist ! v) \<in># pq_mset pq1 \<or> relaxed g dist v" if v: "v < ?n" for v
    proof -
      from R[OF v] show ?thesis
      proof
        assume a: "(int v, dist ! v) \<in># pq_mset pq"
        have "(int v, dist ! v) \<noteq> (u, p)" using True by auto
        with a ms show ?thesis by auto
      qed simp
    qed
    show ?thesis
      unfolding s' dijkstra_inv_def using len pqi1 Q P B rn dr S R1 sub1 K by simp
  next
    case False
    with dup have du: "dist ! nat u = p" by simp
    have "relax_inv g r (nat u) p (dist, prev, pq1)"
      unfolding relax_inv_def
    proof (simp only: prod.case, intro conjI allI impI ballI)
      show "length dist = ?n" "length prev = ?n" "pq_invariant pq1" "nat u < ?n" "dist ! nat u = p"
        "r < ?n" "dist ! r = 0"
        using len pqi1 un du rn dr by simp_all
    next
      fix e assume "e \<in># pq_mset pq1"
      then have e: "e \<in># pq_mset pq" by (rule sub1)
      from Q[OF e] mn[OF e] show "0 \<le> fst e" "fst e < int ?n" "dist ! nat (fst e) \<le> snd e"
        "p \<le> snd e" "snd e < INT_MAX"
        by simp_all
    next
      fix v assume v: "v < ?n" "v \<noteq> nat u"
      from R[OF v(1)] show "(int v, dist ! v) \<in># pq_mset pq1 \<or> relaxed g dist v"
      proof
        assume a: "(int v, dist ! v) \<in># pq_mset pq"
        have "(int v, dist ! v) \<noteq> (u, p)" using v(2) by auto
        with a ms show ?thesis by auto
      qed simp
    next
      fix v assume v: "v < ?n" "prev ! v \<noteq> - 1"
      from P[OF v] up show "0 \<le> prev ! v" "prev ! v < int ?n"
        "(v, dist ! v - dist ! nat (prev ! v)) \<in> set (adjacencyList g ! nat (prev ! v))"
        "dist ! nat (prev ! v) \<le> p" by auto
    next
      fix v assume "v < ?n"
      from B[OF this] show "0 \<le> dist ! v" "dist ! v \<le> INT_MAX" by simp_all
    next
      fix v assume "v < ?n"
      from S[OF this] show "(prev ! v \<noteq> - 1) = (dist ! v < INT_MAX \<and> v \<noteq> r)" .
    next
      fix v assume "v < ?n" "dist ! v < INT_MAX"
      from K[OF this] show "\<exists>vs. spth g dist r vs v (dist ! v)" .
    qed
    moreover have "dijkstra_for (int (nat u)) ns (dist, prev, pq1) = Inr s'" using rel u0 by simp
    moreover have "set ns \<subseteq> set (adjacencyList g ! nat u)" using ns by simp
    moreover have "\<forall>e \<in> set ns. 0 \<le> snd e \<and> p + snd e \<le> INT_MAX"
      using nonneg fits du by simp
    ultimately have res: "relax_inv g r (nat u) p s'" "\<forall>e \<in> set ns. fst s' ! fst e \<le> p + snd e"
      using dijkstra_for_relax[OF nn al, of r "nat u" p "(dist, prev, pq1)" ns s'] by blast+
    obtain dist' prev' pq' where s': "s' = (dist', prev', pq')" by (cases s') auto
    from res(1) have len': "length dist' = ?n" "length prev' = ?n" and pqi': "pq_invariant pq'"
      and du': "dist' ! nat u = p"
      and Q': "\<And>e. e \<in># pq_mset pq' \<Longrightarrow> 0 \<le> fst e \<and> fst e < int ?n \<and>
               dist' ! nat (fst e) \<le> snd e \<and> p \<le> snd e \<and> snd e < INT_MAX"
      and R': "\<And>v. v < ?n \<Longrightarrow> v \<noteq> nat u \<Longrightarrow>
               (int v, dist' ! v) \<in># pq_mset pq' \<or> relaxed g dist' v"
      and P': "\<And>v. v < ?n \<Longrightarrow> prev' ! v \<noteq> - 1 \<Longrightarrow>
               0 \<le> prev' ! v \<and> prev' ! v < int ?n \<and>
               (v, dist' ! v - dist' ! nat (prev' ! v)) \<in> set (adjacencyList g ! nat (prev' ! v)) \<and>
               dist' ! nat (prev' ! v) \<le> p"
      and B': "\<And>v. v < ?n \<Longrightarrow> 0 \<le> dist' ! v \<and> dist' ! v \<le> INT_MAX"
      and dr': "dist' ! r = 0"
      and S': "\<And>v. v < ?n \<Longrightarrow> (prev' ! v \<noteq> - 1) = (dist' ! v < INT_MAX \<and> v \<noteq> r)"
      and K': "\<And>v. v < ?n \<Longrightarrow> dist' ! v < INT_MAX \<Longrightarrow> \<exists>vs. spth g dist' r vs v (dist' ! v)"
      by (auto simp: relax_inv_def s')
    have ru: "relaxed g dist' (nat u)"
      using res(2) du' by (simp add: relaxed_def ns s')
    have R'': "(int v, dist' ! v) \<in># pq_mset pq' \<or> relaxed g dist' v" if "v < ?n" for v
      using R'[OF that] ru by (cases "v = nat u") auto
    have P'': "0 \<le> prev' ! v \<and> prev' ! v < int ?n \<and>
               (v, dist' ! v - dist' ! nat (prev' ! v)) \<in> set (adjacencyList g ! nat (prev' ! v)) \<and>
               (\<forall>e \<in># pq_mset pq'. dist' ! nat (prev' ! v) \<le> snd e)"
      if v: "v < ?n" "prev' ! v \<noteq> - 1" for v
    proof -
      from P'[OF v] have a: "0 \<le> prev' ! v" "prev' ! v < int ?n"
        "(v, dist' ! v - dist' ! nat (prev' ! v)) \<in> set (adjacencyList g ! nat (prev' ! v))"
        "dist' ! nat (prev' ! v) \<le> p" by auto
      have "\<forall>e \<in># pq_mset pq'. dist' ! nat (prev' ! v) \<le> snd e"
      proof
        fix e assume "e \<in># pq_mset pq'"
        from Q'[OF this] a(4) show "dist' ! nat (prev' ! v) \<le> snd e" by simp
      qed
      with a show ?thesis by simp
    qed
    have Q'': "0 \<le> fst e \<and> fst e < int ?n \<and> dist' ! nat (fst e) \<le> snd e \<and> snd e < INT_MAX"
      if "e \<in># pq_mset pq'" for e using Q'[OF that] by simp
    show ?thesis
      unfolding s' dijkstra_inv_def using len' pqi' Q'' R'' P'' B' rn dr' S' K' by simp
  qed
qed

lemma dijkstra_loop_inv:
  "wf_graph g \<Longrightarrow> nonneg_weights g \<Longrightarrow> weights_at_most g m \<Longrightarrow>
   int (numVertices g) * m \<le> INT_MAX \<Longrightarrow> dijkstra_inv g r s \<Longrightarrow>
   dijkstra_loop g s = Inr s' \<Longrightarrow>
   dijkstra_inv g r s' \<and> pq_isEmpty (snd (snd s'))"
proof (induction g s rule: dijkstra_loop.induct)
  case (1 g dist prev pq)
  show ?case
  proof (cases "pq_isEmpty pq")
    case True
    with "1.prems"(5,6) show ?thesis by (auto simp: dijkstra_loop.simps)
  next
    case False
    with "1.prems"(6) obtain u pq1 ns s1 where
      ex: "extractMin pq = Inr (u, pq1)" and gn: "getNeighbors g u = Inr ns"
      and rel: "dijkstra_for u ns (dist, prev, pq1) = Inr s1"
      and loop: "dijkstra_loop g s1 = Inr s'"
      by (subst (asm) dijkstra_loop.simps) (auto split: sum.splits)
    from dijkstra_step[OF "1.prems"(1,2,3,4,5) ex gn rel] have "dijkstra_inv g r s1" .
    from "1.IH"[OF False ex refl gn rel "1.prems"(1,2,3,4) this loop] show ?thesis .
  qed
qed

definition dijkstra_tree_edges :: "int list \<Rightarrow> int list \<Rightarrow> nat list \<Rightarrow> (nat \<times> nat \<times> int) list" where
  "dijkstra_tree_edges dist prev vs =
     map (\<lambda>v. (nat (prev ! v), v, wrap_int (dist ! v - dist ! nat (prev ! v))))
       (filter (\<lambda>v. prev ! v \<noteq> - 1) vs)"

lemma dijkstra_tree_graph_edges:
  "graph_edges t es0 \<Longrightarrow> dijkstra_tree dist prev vs t = Inr t' \<Longrightarrow>
   graph_edges t' (rev (dijkstra_tree_edges dist prev vs) @ es0)"
proof (induction vs arbitrary: t es0)
  case Nil
  then show ?case by (simp add: dijkstra_tree_edges_def)
next
  case (Cons v vs)
  show ?case
  proof (cases "prev ! v \<noteq> - 1")
    case True
    let ?wt = "wrap_int (dist ! v - dist ! nat (prev ! v))"
    from Cons.prems(2) True obtain t1 where
      add: "addEdge t (prev ! v) (int v) ?wt = Inr t1"
      and rest: "dijkstra_tree dist prev vs t1 = Inr t'"
      by (auto simp: Let_def split: if_splits sum.splits)
    from graph_edges_addEdge[OF Cons.prems(1) add]
    have "graph_edges t1 ((nat (prev ! v), v, ?wt) # es0)" by simp
    from Cons.IH[OF this rest] True show ?thesis
      by (simp add: dijkstra_tree_edges_def)
  next
    case False
    with Cons.prems(2) have "dijkstra_tree dist prev vs t = Inr t'" by simp
    from Cons.IH[OF Cons.prems(1) this] False show ?thesis
      by (simp add: dijkstra_tree_edges_def)
  qed
qed

lemma dijkstra_run_inv:
  assumes wf: "wf_graph g" and nn: "nonneg_weights g"
    and wm: "weights_at_most g m" and nm: "int (numVertices g) * m \<le> INT_MAX"
    and run: "dijkstra_run g start = Inr (t0, dist, prev, pq)"
  shows "dijkstra_inv g (nat start) (dist, prev, pq)" "pq_isEmpty pq" "graph_edges t0 []"
    "0 \<le> start" "start < int (numVertices g)"
proof -
  let ?n = "numVertices g"
  from run have start: "0 \<le> start" "start < int ?n"
    by (auto simp: dijkstra_run_def Let_def getVertexCount_def split: sum.splits if_splits)
  then show "0 \<le> start" "start < int (numVertices g)" by simp_all
  from run start obtain pq0 pq1 where
    t0: "Graph_new (int ?n) = Inr t0"
    and new: "PriorityQueue_new (int ?n) = Inr pq0"
    and ins: "insert_pq pq0 start 0 = Inr pq1"
    and loop: "dijkstra_loop g ((replicate ?n INT_MAX)[nat start := 0], replicate ?n (- 1), pq1)
               = Inr (dist, prev, pq)"
    by (auto simp: dijkstra_run_def Let_def getVertexCount_def split: sum.splits if_splits)
  from t0 show "graph_edges t0 []" by (rule graph_edges_new)
  from PriorityQueue_new_invariant[OF new] have i0: "pq_invariant pq0" and m0: "pq_mset pq0 = {#}"
    by simp_all
  from insert_pq_invariant[OF i0 ins] m0 have i1: "pq_invariant pq1"
    and m1: "pq_mset pq1 = {#(start, 0)#}" by simp_all
  let ?dist = "(replicate ?n INT_MAX)[nat start := 0]"
  have sn: "nat start < ?n" using start by simp
  have dv: "?dist ! v = (if v = nat start then 0 else INT_MAX)" if "v < ?n" for v
    using that sn by (simp add: nth_list_update)
  from wf have al: "length (adjacencyList g) = ?n" by (simp add: wf_graph_def)
  have rel: "(int v, ?dist ! v) \<in># pq_mset pq1 \<or> relaxed g ?dist v" if v: "v < ?n" for v
  proof (cases "v = nat start")
    case True
    with start m1 dv[OF v] show ?thesis by simp
  next
    case False
    have "relaxed g ?dist v"
      unfolding relaxed_def
    proof
      fix e assume e: "e \<in> set (adjacencyList g ! v)"
      from nonneg_weights_nth[OF nn _ e] v al have w: "0 \<le> snd e" by simp
      from wf v al e have "fst e < ?n"
        by (cases e) (auto simp: wf_graph_def list_all_iff dest!: nth_mem)
      from dv[OF this] dv[OF v] False w show "?dist ! fst e \<le> ?dist ! v + snd e"
        by (simp add: INT_MAX_def)
    qed
    then show ?thesis ..
  qed
  have K: "\<exists>vs. spth g ?dist (nat start) vs v (?dist ! v)" if v: "v < ?n" "?dist ! v < INT_MAX" for v
  proof -
    from v dv[OF v(1)] have vs: "v = nat start" by (auto split: if_splits)
    have "spth g ?dist (nat start) [nat start] (nat start) 0"
      using sn dv[OF sn] by (intro spth_start) simp_all
    with vs dv[OF sn] show ?thesis by auto
  qed
  have "dijkstra_inv g (nat start) (?dist, replicate ?n (- 1), pq1)"
    unfolding dijkstra_inv_def using i1 m1 start sn rel dv K
    by (simp add: INT_MAX_def)
  from dijkstra_loop_inv[OF wf nn wm nm this loop]
  show "dijkstra_inv g (nat start) (dist, prev, pq)" "pq_isEmpty pq" by simp_all
qed

lemma dijkstra_triangle: "dijkstra triangle 0 = Inr triangle_mst"
  by code_simp

lemma nonneg_triangle: "nonneg_weights triangle"
  by code_simp

lemma triangle_at_most: "weights_at_most triangle 5"
  by code_simp

subsection \<open>A sum of distances that wraps around\<close>

definition chain3 :: Graph where
  "chain3 = \<lparr>numVertices = 3,
     adjacencyList = [[(1, 1)], [(2, 2147483647), (0, 1)], [(1, 2147483647)]]\<rparr>"

lemma chain3_built: "graph_of_edges 3 [(0, 1, 1), (1, 2, 2147483647)] = Inr chain3"
  by code_simp

lemma wf_chain3: "wf_graph chain3"
  by code_simp

lemma nonneg_chain3: "nonneg_weights chain3"
  by code_simp

lemma dijkstra_run_chain3:
  "dijkstra_run chain3 0 =
     Inr (\<lparr>numVertices = 3, adjacencyList = [[], [], []]\<rparr>,
          [0, - 1, - 2147483648], [- 1, 2, 1],
          \<lparr>pq_heap = [(1, - 1), (0, 0), (0, 0)], pq_capacity = 3, pq_size = 0\<rparr>)"
  by code_simp

lemma dijkstra_chain3:
  "dijkstra chain3 0 =
     Inr \<lparr>numVertices = 3,
          adjacencyList = [[], [(2, - 2147483647), (2, 2147483647)],
                           [(1, - 2147483647), (1, 2147483647)]]\<rparr>"
  by code_simp

text \<open>
  C2, as stated: on every graph with non-negative weights and every valid start on which
  \<open>dijkstra\<close> returns, each tree edge \<open>(prev[v], v)\<close> carries the weight
  \<open>dist[v] - dist[prev[v]]\<close> of an entry for \<open>v\<close> in the neighbour list of \<open>prev[v]\<close>.
  It fails on the graph made by \<open>addEdge(0, 1, 1)\<close>, \<open>addEdge(1, 2, 2147483647)\<close> from
  start 0: \<open>dist[1] + 2147483647\<close> wraps around to \<open>INT_MIN\<close>, the run ends with
  \<open>dist = [0, -1, INT_MIN]\<close> and \<open>prev = [-1, 2, 1]\<close>, and the tree edge \<open>(1, 2)\<close> gets the
  weight \<open>-2147483647\<close>, which is no weight of the input.
\<close>

theorem wrapped_distance_breaks_edge_weight:
  "\<not> (\<forall>g start tree.
        wf_graph g \<and> nonneg_weights g \<and> dijkstra g start = Inr tree \<longrightarrow>
        (\<exists>t0 dist prev pq.
           dijkstra_run g start = Inr (t0, dist, prev, pq) \<and>
           graph_edges tree (rev (dijkstra_tree_edges dist prev [0..<numVertices g])) \<and>
           (\<forall>v < numVertices g. prev ! v \<noteq> - 1 \<longrightarrow>
              0 \<le> prev ! v \<and> prev ! v < int (numVertices g) \<and>
              (v, wrap_int (dist ! v - dist ! nat (prev ! v)))
                \<in> set (adjacencyList g ! nat (prev ! v)))))"
proof
  assume "\<forall>g start tree.
        wf_graph g \<and> nonneg_weights g \<and> dijkstra g start = Inr tree \<longrightarrow>
        (\<exists>t0 dist prev pq.
           dijkstra_run g start = Inr (t0, dist, prev, pq) \<and>
           graph_edges tree (rev (dijkstra_tree_edges dist prev [0..<numVertices g])) \<and>
           (\<forall>v < numVertices g. prev ! v \<noteq> - 1 \<longrightarrow>
              0 \<le> prev ! v \<and> prev ! v < int (numVertices g) \<and>
              (v, wrap_int (dist ! v - dist ! nat (prev ! v)))
                \<in> set (adjacencyList g ! nat (prev ! v))))"
  with wf_chain3 nonneg_chain3 dijkstra_chain3 obtain t0 dist prev pq where
    run: "dijkstra_run chain3 0 = Inr (t0, dist, prev, pq)"
    and all: "\<forall>v < numVertices chain3. prev ! v \<noteq> - 1 \<longrightarrow>
              0 \<le> prev ! v \<and> prev ! v < int (numVertices chain3) \<and>
              (v, wrap_int (dist ! v - dist ! nat (prev ! v)))
                \<in> set (adjacencyList chain3 ! nat (prev ! v))"
    by blast
  from run have d: "dist = [0, - 1, - 2147483648]" and p: "prev = [- 1, 2, 1]"
    unfolding dijkstra_run_chain3 by simp_all
  have "(2::nat) < numVertices chain3" by (simp add: chain3_def)
  with all have "prev ! 2 \<noteq> - 1 \<longrightarrow>
      (2, wrap_int (dist ! 2 - dist ! nat (prev ! 2))) \<in> set (adjacencyList chain3 ! nat (prev ! 2))"
    by blast
  then show False
    unfolding d p by (simp add: chain3_def wrap_int_def)
qed

text \<open>
  C2, amended. On a well-formed graph of \<open>n\<close> vertices with non-negative weights, none
  larger than \<open>m\<close>, where \<open>n * m \<le> INT_MAX\<close>, whenever \<open>dijkstra\<close> returns, the result is
  the empty graph plus one edge \<open>(prev[v], v)\<close> of weight \<open>dist[v] - dist[prev[v]]\<close> for
  each vertex \<open>v\<close> with a recorded predecessor; the subtraction does not wrap around, and
  that weight is the weight of an entry for \<open>v\<close> in the neighbour list of \<open>prev[v]\<close> in
  the input graph.
\<close>

theorem dijkstra_tree_weights_are_edge_weights:
  assumes wf: "wf_graph g" and nn: "nonneg_weights g"
    and wm: "weights_at_most g m" and nm: "int (numVertices g) * m \<le> INT_MAX"
    and ret: "dijkstra g start = Inr tree"
  shows "\<exists>t0 dist prev pq.
           dijkstra_run g start = Inr (t0, dist, prev, pq) \<and>
           graph_edges tree (rev (dijkstra_tree_edges dist prev [0..<numVertices g])) \<and>
           (\<forall>v < numVertices g. prev ! v \<noteq> - 1 \<longrightarrow>
              0 \<le> prev ! v \<and> prev ! v < int (numVertices g) \<and>
              wrap_int (dist ! v - dist ! nat (prev ! v)) = dist ! v - dist ! nat (prev ! v) \<and>
              (v, wrap_int (dist ! v - dist ! nat (prev ! v)))
                \<in> set (adjacencyList g ! nat (prev ! v)))"
proof -
  let ?n = "numVertices g"
  from ret obtain t0 dist prev pq where
    run: "dijkstra_run g start = Inr (t0, dist, prev, pq)"
    and tr: "dijkstra_tree dist prev [0..<?n] t0 = Inr tree"
    by (auto simp: dijkstra_def getVertexCount_def split: sum.splits)
  from dijkstra_run_inv[OF wf nn wm nm run] have inv: "dijkstra_inv g (nat start) (dist, prev, pq)"
    and t0: "graph_edges t0 []" by simp_all
  from dijkstra_tree_graph_edges[OF t0 tr]
  have ge: "graph_edges tree (rev (dijkstra_tree_edges dist prev [0..<?n]))" by simp
  from inv have P: "\<And>v. v < ?n \<Longrightarrow> prev ! v \<noteq> - 1 \<Longrightarrow>
              0 \<le> prev ! v \<and> prev ! v < int ?n \<and>
              (v, dist ! v - dist ! nat (prev ! v)) \<in> set (adjacencyList g ! nat (prev ! v))"
    and B: "\<And>v. v < ?n \<Longrightarrow> 0 \<le> dist ! v \<and> dist ! v \<le> INT_MAX"
    by (auto simp: dijkstra_inv_def)
  have "0 \<le> prev ! v \<and> prev ! v < int ?n \<and>
        wrap_int (dist ! v - dist ! nat (prev ! v)) = dist ! v - dist ! nat (prev ! v) \<and>
        (v, wrap_int (dist ! v - dist ! nat (prev ! v))) \<in> set (adjacencyList g ! nat (prev ! v))"
    if v: "v < ?n" "prev ! v \<noteq> - 1" for v
  proof -
    from P[OF v] have p: "0 \<le> prev ! v" "prev ! v < int ?n"
      "(v, dist ! v - dist ! nat (prev ! v)) \<in> set (adjacencyList g ! nat (prev ! v))"
      by simp_all
    from p(1,2) have "nat (prev ! v) < ?n" by simp
    from B[OF this] B[OF v(1)]
    have "wrap_int (dist ! v - dist ! nat (prev ! v)) = dist ! v - dist ! nat (prev ! v)"
      by (intro wrap_int_id) (simp_all add: INT_MIN_def INT_MAX_def)
    with p show ?thesis by simp
  qed
  with run ge show ?thesis by blast
qed

theorem dijkstra_tree_weights_are_edge_weights_witness:
  "wf_graph triangle \<and> nonneg_weights triangle \<and> weights_at_most triangle 5 \<and>
   int (numVertices triangle) * 5 \<le> INT_MAX \<and> dijkstra triangle 0 = Inr triangle_mst \<and>
   (\<exists>t0 dist prev pq.
      dijkstra_run triangle 0 = Inr (t0, dist, prev, pq) \<and>
      graph_edges triangle_mst (rev (dijkstra_tree_edges dist prev [0..<numVertices triangle])) \<and>
      (\<forall>v < numVertices triangle. prev ! v \<noteq> - 1 \<longrightarrow>
         0 \<le> prev ! v \<and> prev ! v < int (numVertices triangle) \<and>
         wrap_int (dist ! v - dist ! nat (prev ! v)) = dist ! v - dist ! nat (prev ! v) \<and>
         (v, wrap_int (dist ! v - dist ! nat (prev ! v)))
           \<in> set (adjacencyList triangle ! nat (prev ! v))))"
proof -
  have nm: "int (numVertices triangle) * 5 \<le> INT_MAX" by (simp add: triangle_def INT_MAX_def)
  from dijkstra_tree_weights_are_edge_weights[OF wf_triangle nonneg_triangle triangle_at_most nm
      dijkstra_triangle]
    wf_triangle nonneg_triangle triangle_at_most nm dijkstra_triangle
  show ?thesis by blast
qed

section \<open>Edge counts of the result trees\<close>

text \<open>
  \<open>walk g u v d\<close>: following neighbour-list entries from \<open>u\<close> leads to \<open>v\<close> with the
  weights adding up to \<open>d\<close>. A graph described by an edge list has two adjacency
  entries per edge.
\<close>

inductive walk :: "Graph \<Rightarrow> nat \<Rightarrow> nat \<Rightarrow> int \<Rightarrow> bool" for g :: Graph and u :: nat where
  walk_refl: "walk g u u 0"
| walk_step: "walk g u v d \<Longrightarrow> e \<in> set (adjacencyList g ! v) \<Longrightarrow> walk g u (fst e) (d + snd e)"

lemma sum_list_indicator:
  "sum_list (map (\<lambda>x. if x = v then 1 else 0) [0..<n]) = (if v < n then 1 else (0::nat))"
  by (induction n) auto

lemma entry_count_graph_edges:
  assumes "graph_edges t es"
  shows "entry_count t = 2 * length es"
proof -
  let ?n = "numVertices t"
  from assms have adj: "adjacencyList t = map (adj_of es) [0..<?n]"
    and la: "list_all (\<lambda>(u, v, w). u < ?n \<and> v < ?n) es" by (auto simp: graph_edges_def)
  have "sum_list (map (\<lambda>x. length (adj_of es x)) [0..<?n]) = 2 * length es"
    using la
  proof (induction es)
    case Nil
    then show ?case by simp
  next
    case (Cons e es)
    obtain u v w where e: "e = (u, v, w)" by (cases e) auto
    from Cons.prems e have uv: "u < ?n" "v < ?n" and rest: "list_all (\<lambda>(u, v, w). u < ?n \<and> v < ?n) es"
      by auto
    have "sum_list (map (\<lambda>x. length (adj_of (e # es) x)) [0..<?n])
        = sum_list (map (\<lambda>x. (if x = v then 1 else 0) + ((if x = u then 1 else 0) + length (adj_of es x))) [0..<?n])"
      by (intro arg_cong[where f = sum_list] map_cong) (auto simp: e)
    also have "\<dots> = sum_list (map (\<lambda>x. if x = v then 1 else 0) [0..<?n])
                  + (sum_list (map (\<lambda>x. if x = u then 1 else 0) [0..<?n])
                  + sum_list (map (\<lambda>x. length (adj_of es x)) [0..<?n]))"
      by (simp only: sum_list_addf)
    also have "\<dots> = 2 * length (e # es)"
      using uv Cons.IH[OF rest] by (simp add: sum_list_indicator)
    finally show ?case .
  qed
  then show ?thesis by (simp add: entry_count_def adj comp_def)
qed

lemma length_filter_neq:
  assumes "r < n"
  shows "length (filter (\<lambda>v. v \<noteq> r) [0..<n]) = n - 1"
proof -
  have "{i. i < n \<and> [0..<n] ! i \<noteq> r} = {i. i < n \<and> i \<noteq> r}" by auto
  then have "length (filter (\<lambda>v. v \<noteq> r) [0..<n]) = card {i. i < n \<and> i \<noteq> r}"
    by (simp add: length_filter_conv_card)
  also have "{i. i < n \<and> i \<noteq> r} = {..<n} - {r}" by auto
  also have "card \<dots> = n - 1" using assms by simp
  finally show ?thesis .
qed

lemma walk_dist_le:
  assumes rel: "\<And>v. v < numVertices g \<Longrightarrow> relaxed g dist v"
    and wf: "wf_graph g" and r: "r < numVertices g" and dr: "dist ! r \<le> 0"
  shows "walk g r v d \<Longrightarrow> v < numVertices g \<and> dist ! v \<le> d"
proof (induction rule: walk.induct)
  case walk_refl
  then show ?case using r dr by simp
next
  case (walk_step v d e)
  then have v: "v < numVertices g" and dv: "dist ! v \<le> d" by simp_all
  from rel[OF v] walk_step.hyps(2) have "dist ! fst e \<le> dist ! v + snd e"
    by (simp add: relaxed_def)
  moreover from wf v walk_step.hyps(2) have "fst e < numVertices g"
    by (cases e) (auto simp: wf_graph_def list_all_iff dest!: nth_mem)
  ultimately show ?case using dv by simp
qed

lemma dijkstra_edge_count:
  assumes wf: "wf_graph g" and nn: "nonneg_weights g"
    and wm: "weights_at_most g m" and nm: "int (numVertices g) * m \<le> INT_MAX"
    and reach: "\<forall>v < numVertices g. \<exists>d < INT_MAX. walk g (nat start) v d"
    and ret: "dijkstra g start = Inr tree"
  shows "entry_count tree = 2 * (numVertices g - 1)"
proof -
  let ?n = "numVertices g"
  from ret obtain t0 dist prev pq where
    run: "dijkstra_run g start = Inr (t0, dist, prev, pq)"
    and tr: "dijkstra_tree dist prev [0..<?n] t0 = Inr tree"
    by (auto simp: dijkstra_def getVertexCount_def split: sum.splits)
  from dijkstra_run_inv[OF wf nn wm nm run] have inv: "dijkstra_inv g (nat start) (dist, prev, pq)"
    and emp: "pq_isEmpty pq" and t0: "graph_edges t0 []" by simp_all
  from emp have "pq_mset pq = {#}" by (simp add: pq_isEmpty_def pq_mset_def)
  with inv have rel: "\<And>v. v < ?n \<Longrightarrow> relaxed g dist v"
    and rn: "nat start < ?n" and dr: "dist ! nat start = 0"
    and S: "\<And>v. v < ?n \<Longrightarrow> (prev ! v \<noteq> - 1) = (dist ! v < INT_MAX \<and> v \<noteq> nat start)"
    by (auto simp: dijkstra_inv_def)
  have P: "(prev ! v \<noteq> - 1) = (v \<noteq> nat start)" if v: "v < ?n" for v
  proof -
    from reach v obtain d where d: "d < INT_MAX" "walk g (nat start) v d" by blast
    from walk_dist_le[OF rel wf rn _ d(2)] dr d(1) have "dist ! v < INT_MAX" by simp
    with S[OF v] show ?thesis by simp
  qed
  have "filter (\<lambda>v. prev ! v \<noteq> - 1) [0..<?n] = filter (\<lambda>v. v \<noteq> nat start) [0..<?n]"
    by (rule filter_cong[OF refl]) (simp add: P)
  then have "length (dijkstra_tree_edges dist prev [0..<?n]) = ?n - 1"
    using length_filter_neq[OF rn] by (simp add: dijkstra_tree_edges_def)
  moreover from dijkstra_tree_graph_edges[OF t0 tr]
  have "graph_edges tree (rev (dijkstra_tree_edges dist prev [0..<?n]))" by simp
  from entry_count_graph_edges[OF this]
  have "entry_count tree = 2 * length (dijkstra_tree_edges dist prev [0..<?n])" by simp
  ultimately show ?thesis by simp
qed

subsection \<open>prim: the loop invariant\<close>

text \<open>
  \<open>prim_inv g cur\<close> is the invariant of the \<open>while\<close> loop of \<open>prim\<close>; inside the \<open>for\<close>
  loop over the neighbours of the vertex just popped, \<open>cur\<close> is that vertex, whose
  neighbours are not all visited yet.
\<close>

definition prim_inv :: "Graph \<Rightarrow> nat option \<Rightarrow> prim_state \<Rightarrow> bool" where
  "prim_inv g cur s =
     (case s of (inMST, key, parent, pq) \<Rightarrow>
        length inMST = numVertices g \<and> length key = numVertices g \<and>
        length parent = numVertices g \<and> pq_invariant pq \<and>
        (\<forall>e \<in># pq_mset pq. 0 \<le> fst e \<and> fst e < int (numVertices g) \<and>
             key ! nat (fst e) < INT_MAX) \<and>
        (\<forall>v < numVertices g. key ! v < INT_MAX \<longrightarrow>
             inMST ! v \<or> (\<exists>p. (int v, p) \<in># pq_mset pq)) \<and>
        (\<forall>v < numVertices g. inMST ! v \<and> Some v \<noteq> cur \<longrightarrow>
             (\<forall>e \<in> set (adjacencyList g ! v). inMST ! fst e \<or> key ! fst e \<le> snd e)) \<and>
        (\<forall>v < numVertices g. 0 < v \<longrightarrow> (parent ! v \<noteq> - 1) = (key ! v < INT_MAX)) \<and>
        (\<forall>v < numVertices g. key ! v \<le> INT_MAX \<and> (inMST ! v \<longrightarrow> key ! v < INT_MAX)) \<and>
        0 < numVertices g \<and> key ! 0 < INT_MAX)"

lemma prim_inv_improve:
  assumes inv: "prim_inv g cur (inMST, key, parent, pq)"
    and y: "y < numVertices g" and nin: "\<not> inMST ! y" and lt: "w < key ! y"
    and u: "0 \<le> u"
    and ins: "insert_pq pq (int y) w = Inr pq'"
  shows "prim_inv g cur (inMST, key[y := w], parent[y := u], pq')"
proof -
  let ?n = "numVertices g"
  let ?key = "key[y := w]"
  let ?parent = "parent[y := u]"
  from inv have len: "length inMST = ?n" "length key = ?n" "length parent = ?n"
    and pqi: "pq_invariant pq"
    and Q: "\<And>e. e \<in># pq_mset pq \<Longrightarrow> 0 \<le> fst e \<and> fst e < int ?n \<and> key ! nat (fst e) < INT_MAX"
    and T: "\<And>v. v < ?n \<Longrightarrow> key ! v < INT_MAX \<Longrightarrow> inMST ! v \<or> (\<exists>p. (int v, p) \<in># pq_mset pq)"
    and N: "\<And>v e. v < ?n \<Longrightarrow> inMST ! v \<Longrightarrow> Some v \<noteq> cur \<Longrightarrow> e \<in> set (adjacencyList g ! v) \<Longrightarrow>
               inMST ! fst e \<or> key ! fst e \<le> snd e"
    and S: "\<And>v. v < ?n \<Longrightarrow> 0 < v \<Longrightarrow> (parent ! v \<noteq> - 1) = (key ! v < INT_MAX)"
    and B: "\<And>v. v < ?n \<Longrightarrow> key ! v \<le> INT_MAX \<and> (inMST ! v \<longrightarrow> key ! v < INT_MAX)"
    and n0: "0 < ?n" and k0: "key ! 0 < INT_MAX"
    by (auto simp: prim_inv_def)
  from insert_pq_invariant[OF pqi ins] have pqi': "pq_invariant pq'"
    and ms: "pq_mset pq' = add_mset (int y, w) (pq_mset pq)" by auto
  have le: "?key ! v \<le> key ! v" for v
    using lt y len by (cases "v = y") simp_all
  from B[OF y] lt have wlt: "w < INT_MAX" by simp
  have Q': "0 \<le> fst e \<and> fst e < int ?n \<and> ?key ! nat (fst e) < INT_MAX"
    if "e \<in># pq_mset pq'" for e
  proof (cases "e = (int y, w)")
    case True
    with y len wlt show ?thesis by simp
  next
    case False
    with that ms have "e \<in># pq_mset pq" by simp
    from Q[OF this] le[of "nat (fst e)"] show ?thesis by linarith
  qed
  have T': "inMST ! v \<or> (\<exists>p. (int v, p) \<in># pq_mset pq')"
    if v: "v < ?n" "?key ! v < INT_MAX" for v
  proof (cases "v = y")
    case True
    with ms show ?thesis by auto
  next
    case False
    with v have "key ! v < INT_MAX" by simp
    from T[OF v(1) this] ms show ?thesis by auto
  qed
  have N': "inMST ! fst e \<or> ?key ! fst e \<le> snd e"
    if "v < ?n" "inMST ! v" "Some v \<noteq> cur" "e \<in> set (adjacencyList g ! v)" for v e
    using N[OF that] le[of "fst e"] by auto
  have S': "(?parent ! v \<noteq> - 1) = (?key ! v < INT_MAX)" if v: "v < ?n" "0 < v" for v
  proof (cases "v = y")
    case True
    with y len u wlt show ?thesis by simp
  next
    case False
    with S[OF v] show ?thesis by simp
  qed
  have B': "?key ! v \<le> INT_MAX \<and> (inMST ! v \<longrightarrow> ?key ! v < INT_MAX)" if "v < ?n" for v
    using B[OF that] le[of v] by auto
  have k0': "?key ! 0 < INT_MAX" using k0 le[of 0] by simp
  show ?thesis
    unfolding prim_inv_def using len pqi' Q' T' N' S' B' n0 k0' by simp
qed

lemma prim_for_inv:
  "prim_inv g cur s \<Longrightarrow> 0 \<le> u \<Longrightarrow> prim_for u ns s = Inr s' \<Longrightarrow>
   prim_inv g cur s' \<and> fst s' = fst s \<and> (\<forall>v. fst (snd s') ! v \<le> fst (snd s) ! v) \<and>
   (\<forall>e \<in> set ns. fst s ! fst e \<or> fst (snd s') ! fst e \<le> snd e)"
proof (induction u ns s rule: prim_for.induct)
  case (1 u s)
  then show ?case by simp
next
  case (2 u v w ns inMST key parent pq)
  let ?n = "numVertices g"
  from "2.prems"(1) have len: "length inMST = ?n" "length key = ?n"
    by (auto simp: prim_inv_def)
  from "2.prems"(3) have rng: "\<not> (v \<ge> length inMST \<or> v \<ge> length key)"
    by (auto split: if_splits)
  with len have vn: "v < ?n" by simp
  show ?case
  proof (cases "\<not> inMST ! v \<and> w < key ! v")
    case True
    with "2.prems"(3) rng obtain pq' where
      ins: "insert_pq pq (int v) w = Inr pq'"
      and r: "prim_for u ns (inMST, key[v := w], parent[v := u], pq') = Inr s'"
      by (auto split: sum.splits)
    from True have nin: "\<not> inMST ! v" and lt: "w < key ! v" by simp_all
    from prim_inv_improve[OF "2.prems"(1) vn nin lt "2.prems"(2) ins]
    have inv': "prim_inv g cur (inMST, key[v := w], parent[v := u], pq')" .
    from "2.IH"(1)[OF rng True ins inv' "2.prems"(2) r]
    have IH: "prim_inv g cur s'" "fst s' = inMST" "\<And>x. fst (snd s') ! x \<le> (key[v := w]) ! x"
      "\<forall>e \<in> set ns. inMST ! fst e \<or> fst (snd s') ! fst e \<le> snd e" by auto
    have le: "(key[v := w]) ! x \<le> key ! x" for x
      using lt vn len by (cases "x = v") simp_all
    have "fst (snd s') ! v \<le> w" using IH(3)[of v] vn len by simp
    moreover have "\<And>x. fst (snd s') ! x \<le> key ! x" using IH(3) le by (meson order_trans)
    ultimately show ?thesis using IH(1,2,4) by simp
  next
    case False
    with "2.prems"(3) rng have r: "prim_for u ns (inMST, key, parent, pq) = Inr s'"
      by auto
    from "2.IH"(2)[OF rng False "2.prems"(1,2) r]
    have IH: "prim_inv g cur s'" "fst s' = inMST" "\<And>x. fst (snd s') ! x \<le> key ! x"
      "\<forall>e \<in> set ns. inMST ! fst e \<or> fst (snd s') ! fst e \<le> snd e" by auto
    from False have "inMST ! v \<or> key ! v \<le> w" by auto
    then have "inMST ! v \<or> fst (snd s') ! v \<le> w" using IH(3)[of v] by auto
    with IH show ?thesis by simp
  qed
qed

lemma prim_step:
  assumes wf: "wf_graph g"
    and inv: "prim_inv g None (inMST, key, parent, pq)"
    and ex: "extractMin pq = Inr (u, pq1)"
    and gn: "getNeighbors g u = Inr ns"
    and rel: "prim_for u ns (inMST[nat u := True], key, parent, pq1) = Inr s'"
  shows "prim_inv g None s'"
proof -
  let ?n = "numVertices g"
  let ?in = "inMST[nat u := True]"
  from inv have len: "length inMST = ?n" "length key = ?n" "length parent = ?n"
    and pqi: "pq_invariant pq"
    and Q: "\<And>e. e \<in># pq_mset pq \<Longrightarrow> 0 \<le> fst e \<and> fst e < int ?n \<and> key ! nat (fst e) < INT_MAX"
    and T: "\<And>v. v < ?n \<Longrightarrow> key ! v < INT_MAX \<Longrightarrow> inMST ! v \<or> (\<exists>p. (int v, p) \<in># pq_mset pq)"
    and N: "\<And>v e. v < ?n \<Longrightarrow> inMST ! v \<Longrightarrow> e \<in> set (adjacencyList g ! v) \<Longrightarrow>
               inMST ! fst e \<or> key ! fst e \<le> snd e"
    and S: "\<And>v. v < ?n \<Longrightarrow> 0 < v \<Longrightarrow> (parent ! v \<noteq> - 1) = (key ! v < INT_MAX)"
    and B: "\<And>v. v < ?n \<Longrightarrow> key ! v \<le> INT_MAX \<and> (inMST ! v \<longrightarrow> key ! v < INT_MAX)"
    and n0: "0 < ?n" and k0: "key ! 0 < INT_MAX"
    by (auto simp: prim_inv_def)
  from extractMin_invariant[OF pqi ex] obtain p where pqi1: "pq_invariant pq1"
    and ms: "pq_mset pq = add_mset (u, p) (pq_mset pq1)" by blast
  have up: "(u, p) \<in># pq_mset pq" using ms by simp
  from Q[OF up] have u0: "0 \<le> u" and un: "nat u < ?n" and ku: "key ! nat u < INT_MAX" by auto
  from gn u0 have ns: "ns = adjacencyList g ! nat u"
    by (auto simp: getNeighbors_def split: if_splits)
  have sub1: "\<And>e. e \<in># pq_mset pq1 \<Longrightarrow> e \<in># pq_mset pq" using ms by simp
  have inx: "?in ! v = (inMST ! v \<or> v = nat u)" if "v < ?n" for v
    using that len un by (cases "v = nat u") simp_all
  have inmono: "inMST ! v \<Longrightarrow> ?in ! v" for v
    using un len by (cases "v = nat u") simp_all
  have T1: "?in ! v \<or> (\<exists>q. (int v, q) \<in># pq_mset pq1)"
    if v: "v < ?n" "key ! v < INT_MAX" for v
  proof (cases "v = nat u")
    case True
    with inx[OF v(1)] show ?thesis by simp
  next
    case False
    from T[OF v] show ?thesis
    proof
      assume "inMST ! v"
      then show ?thesis using inmono by simp
    next
      assume "\<exists>q. (int v, q) \<in># pq_mset pq"
      then obtain q where q: "(int v, q) \<in># pq_mset pq" ..
      have "(int v, q) \<noteq> (u, p)" using False by auto
      with q ms have "(int v, q) \<in># pq_mset pq1" by auto
      then show ?thesis by blast
    qed
  qed
  have N1: "\<forall>v < ?n. ?in ! v \<and> Some v \<noteq> Some (nat u) \<longrightarrow>
          (\<forall>e \<in> set (adjacencyList g ! v). ?in ! fst e \<or> key ! fst e \<le> snd e)"
  proof (intro allI impI ballI)
    fix v e assume a: "v < ?n" "?in ! v \<and> Some v \<noteq> Some (nat u)" "e \<in> set (adjacencyList g ! v)"
    from a(1,2) inx have "inMST ! v" by auto
    from N[OF a(1) this a(3)] inmono show "?in ! fst e \<or> key ! fst e \<le> snd e" by blast
  qed
  have B1: "key ! v \<le> INT_MAX \<and> (?in ! v \<longrightarrow> key ! v < INT_MAX)" if "v < ?n" for v
    using B[OF that] inx[OF that] ku by auto
  have Q1: "0 \<le> fst e \<and> fst e < int ?n \<and> key ! nat (fst e) < INT_MAX"
    if "e \<in># pq_mset pq1" for e using Q[OF sub1[OF that]] .
  have inv1: "prim_inv g (Some (nat u)) (?in, key, parent, pq1)"
    unfolding prim_inv_def prod.case
    apply (intro conjI)
    subgoal using len by simp
    subgoal using len by simp
    subgoal using len by simp
    subgoal using pqi1 .
    subgoal using Q1 by blast
    subgoal using T1 by blast
    subgoal using N1 .
    subgoal using S by blast
    subgoal using B1 by blast
    subgoal using n0 .
    subgoal using k0 .
    done
  from prim_for_inv[OF inv1 u0 rel]
  have res: "prim_inv g (Some (nat u)) s'" "fst s' = ?in"
    "\<forall>e \<in> set ns. ?in ! fst e \<or> fst (snd s') ! fst e \<le> snd e" by simp_all
  obtain in' key' parent' pq' where s': "s' = (in', key', parent', pq')" by (cases s') auto
  from res(2) s' have in': "in' = ?in" by simp
  have "\<forall>v < ?n. in' ! v \<and> Some v \<noteq> None \<longrightarrow>
          (\<forall>e \<in> set (adjacencyList g ! v). in' ! fst e \<or> key' ! fst e \<le> snd e)"
  proof (intro allI impI ballI)
    fix v e assume v: "v < ?n" "in' ! v \<and> Some v \<noteq> None" "e \<in> set (adjacencyList g ! v)"
    show "in' ! fst e \<or> key' ! fst e \<le> snd e"
    proof (cases "v = nat u")
      case True
      with res(3) v(3) ns s' in' show ?thesis by simp
    next
      case False
      with res(1) v show ?thesis by (auto simp: prim_inv_def s')
    qed
  qed
  with res(1) show ?thesis
    unfolding prim_inv_def s' by simp
qed

lemma prim_loop_inv:
  "wf_graph g \<Longrightarrow> prim_inv g None s \<Longrightarrow> prim_loop g s = Inr s' \<Longrightarrow>
   prim_inv g None s' \<and> pq_isEmpty (snd (snd (snd s')))"
proof (induction g s rule: prim_loop.induct)
  case (1 g inMST key parent pq)
  show ?case
  proof (cases "pq_isEmpty pq")
    case True
    with "1.prems"(2,3) show ?thesis by (auto simp: prim_loop.simps)
  next
    case False
    with "1.prems"(3) obtain u pq1 ns s1 where
      ex: "extractMin pq = Inr (u, pq1)"
      and rng: "\<not> (u < 0 \<or> u \<ge> int (length inMST))"
      and gn: "getNeighbors g u = Inr ns"
      and rel: "prim_for u ns (inMST[nat u := True], key, parent, pq1) = Inr s1"
      and loop: "prim_loop g s1 = Inr s'"
      by (subst (asm) prim_loop.simps) (auto split: sum.splits if_splits)
    from prim_step[OF "1.prems"(1,2) ex gn rel] have "prim_inv g None s1" .
    from "1.IH"[OF False ex refl rng gn rel "1.prems"(1) this loop] show ?thesis .
  qed
qed

definition prim_tree_edges :: "int list \<Rightarrow> int list \<Rightarrow> nat list \<Rightarrow> (nat \<times> nat \<times> int) list" where
  "prim_tree_edges key parent vs =
     map (\<lambda>v. (nat (parent ! v), v, key ! v)) (filter (\<lambda>v. parent ! v \<noteq> - 1) vs)"

definition weights_below :: "Graph \<Rightarrow> int \<Rightarrow> bool" where
  "weights_below g b = list_all (list_all (\<lambda>(v, w). w < b)) (adjacencyList g)"

lemma prim_tree_graph_edges:
  "graph_edges t es0 \<Longrightarrow> prim_tree key parent vs t = Inr t' \<Longrightarrow>
   graph_edges t' (rev (prim_tree_edges key parent vs) @ es0)"
proof (induction vs arbitrary: t es0)
  case Nil
  then show ?case by (simp add: prim_tree_edges_def)
next
  case (Cons v vs)
  show ?case
  proof (cases "parent ! v \<noteq> - 1")
    case True
    from Cons.prems(2) True obtain t1 where
      add: "addEdge t (parent ! v) (int v) (key ! v) = Inr t1"
      and rest: "prim_tree key parent vs t1 = Inr t'"
      by (auto split: sum.splits)
    from graph_edges_addEdge[OF Cons.prems(1) add]
    have "graph_edges t1 ((nat (parent ! v), v, key ! v) # es0)" by simp
    from Cons.IH[OF this rest] True show ?thesis
      by (simp add: prim_tree_edges_def)
  next
    case False
    with Cons.prems(2) have "prim_tree key parent vs t = Inr t'" by simp
    from Cons.IH[OF Cons.prems(1) this] False show ?thesis
      by (simp add: prim_tree_edges_def)
  qed
qed

lemma prim_run_inv:
  assumes wf: "wf_graph g"
    and run: "prim_run g = Inr (t0, inMST, key, parent, pq)"
  shows "prim_inv g None (inMST, key, parent, pq)" "pq_isEmpty pq" "graph_edges t0 []"
proof -
  let ?n = "numVertices g"
  from run have n0: "0 < ?n"
    by (auto simp: prim_run_def Let_def getVertexCount_def split: sum.splits if_splits)
  from run n0 obtain pq0 pq1 where
    t0: "Graph_new (int ?n) = Inr t0"
    and new: "PriorityQueue_new (int ?n) = Inr pq0"
    and ins: "insert_pq pq0 0 0 = Inr pq1"
    and loop: "prim_loop g (replicate ?n False, (replicate ?n INT_MAX)[0 := 0], replicate ?n (- 1), pq1)
               = Inr (inMST, key, parent, pq)"
    by (auto simp: prim_run_def Let_def getVertexCount_def split: sum.splits if_splits)
  from t0 show "graph_edges t0 []" by (rule graph_edges_new)
  from PriorityQueue_new_invariant[OF new] have i0: "pq_invariant pq0" and m0: "pq_mset pq0 = {#}"
    by simp_all
  from insert_pq_invariant[OF i0 ins] m0 have i1: "pq_invariant pq1"
    and m1: "pq_mset pq1 = {#(0, 0)#}" by simp_all
  let ?key = "(replicate ?n INT_MAX)[0 := 0]"
  have kv: "?key ! v = (if v = 0 then 0 else INT_MAX)" if "v < ?n" for v
    using that n0 by (simp add: nth_list_update)
  have "prim_inv g None (replicate ?n False, ?key, replicate ?n (- 1), pq1)"
    unfolding prim_inv_def using i1 m1 n0 kv
    by (auto simp: INT_MAX_def)
  from prim_loop_inv[OF wf this loop]
  show "prim_inv g None (inMST, key, parent, pq)" "pq_isEmpty pq" by simp_all
qed

lemma prim_edge_count:
  assumes wf: "wf_graph g" and wb: "weights_below g INT_MAX"
    and reach: "\<forall>v < numVertices g. \<exists>d. walk g 0 v d"
    and ret: "prim g = Inr tree"
  shows "entry_count tree = 2 * (numVertices g - 1)"
proof -
  let ?n = "numVertices g"
  from ret obtain t0 inMST key parent pq where
    run: "prim_run g = Inr (t0, inMST, key, parent, pq)"
    and tr: "prim_tree key parent [1..<?n] t0 = Inr tree"
    by (auto simp: prim_def getVertexCount_def split: sum.splits)
  from prim_run_inv[OF wf run] have inv: "prim_inv g None (inMST, key, parent, pq)"
    and emp: "pq_isEmpty pq" and t0: "graph_edges t0 []" by simp_all
  from emp have "pq_mset pq = {#}" by (simp add: pq_isEmpty_def pq_mset_def)
  with inv have T: "\<And>v. v < ?n \<Longrightarrow> key ! v < INT_MAX \<Longrightarrow> inMST ! v"
    and N: "\<And>v e. v < ?n \<Longrightarrow> inMST ! v \<Longrightarrow> e \<in> set (adjacencyList g ! v) \<Longrightarrow>
               inMST ! fst e \<or> key ! fst e \<le> snd e"
    and S: "\<And>v. v < ?n \<Longrightarrow> 0 < v \<Longrightarrow> (parent ! v \<noteq> - 1) = (key ! v < INT_MAX)"
    and B: "\<And>v. v < ?n \<Longrightarrow> inMST ! v \<Longrightarrow> key ! v < INT_MAX"
    and n0: "0 < ?n" and k0: "key ! 0 < INT_MAX"
    by (auto simp: prim_inv_def)
  from wf have al: "length (adjacencyList g) = ?n" by (simp add: wf_graph_def)
  have W: "walk g 0 v d \<Longrightarrow> v < ?n \<and> inMST ! v" for v d
  proof (induction rule: walk.induct)
    case walk_refl
    then show ?case using n0 T[OF n0 k0] by simp
  next
    case (walk_step v d e)
    then have v: "v < ?n" "inMST ! v" by simp_all
    from wf v(1) walk_step.hyps(2) have en: "fst e < ?n"
      by (cases e) (auto simp: wf_graph_def list_all_iff dest!: nth_mem)
    from v(1) al have "adjacencyList g ! v \<in> set (adjacencyList g)" by simp
    with wb walk_step.hyps(2) have "snd e < INT_MAX"
      by (cases e) (auto simp: weights_below_def list_all_iff)
    with N[OF v walk_step.hyps(2)] T[OF en] show ?case using en by auto
  qed
  have P: "parent ! v \<noteq> - 1" if v: "v < ?n" "0 < v" for v
  proof -
    from reach v(1) obtain d where "walk g 0 v d" by blast
    from W[OF this] B[OF v(1)] S[OF v] show ?thesis by simp
  qed
  have "filter (\<lambda>v. parent ! v \<noteq> - 1) [1..<?n] = [1..<?n]"
    by (rule filter_True) (simp add: P)
  then have "length (prim_tree_edges key parent [1..<?n]) = ?n - 1"
    by (simp add: prim_tree_edges_def)
  moreover from prim_tree_graph_edges[OF t0 tr]
  have "graph_edges tree (rev (prim_tree_edges key parent [1..<?n]))" by simp
  from entry_count_graph_edges[OF this]
  have "entry_count tree = 2 * length (prim_tree_edges key parent [1..<?n])" by simp
  ultimately show ?thesis by simp
qed

section \<open>UnionFind: roots and classes\<close>

inductive root_of :: "nat list \<Rightarrow> nat \<Rightarrow> nat \<Rightarrow> bool" for l :: "nat list" where
  root_self: "i < length l \<Longrightarrow> l ! i = i \<Longrightarrow> root_of l i i"
| root_up: "i < length l \<Longrightarrow> l ! i \<noteq> i \<Longrightarrow> root_of l (l ! i) r \<Longrightarrow> root_of l i r"

definition uf_invar :: "nat list \<Rightarrow> bool" where
  "uf_invar l = (\<forall>i < length l. \<exists>r. root_of l i r)"

lemma root_of_bounds: "root_of l i r \<Longrightarrow> i < length l \<and> r < length l \<and> l ! r = r"
  by (induction rule: root_of.induct) auto

lemma root_of_unique: "root_of l i r \<Longrightarrow> root_of l i r' \<Longrightarrow> r = r'"
proof (induction arbitrary: r' rule: root_of.induct)
  case (root_self i)
  from root_self.prems root_self.hyps show ?case by (cases rule: root_of.cases) auto
next
  case (root_up i r)
  from root_up.prems root_up.hyps(2) have "root_of l (l ! i) r'"
    by (cases rule: root_of.cases) auto
  then show ?case by (rule root_up.IH)
qed

lemma root_of_root: "root_of l i r \<Longrightarrow> root_of l r r"
  using root_of_bounds root_self by blast

text \<open>Path compression: pointing \<open>i\<close> at its root changes no root.\<close>

lemma root_of_compress:
  assumes i: "root_of l i r"
  shows "root_of l j r' \<Longrightarrow> root_of (l[i := r]) j r'"
proof (induction rule: root_of.induct)
  case (root_self j)
  show ?case
  proof (cases "j = i")
    case True
    from root_self.hyps have "root_of l j j" by (rule root_of.root_self)
    with True have "root_of l i i" by simp
    from root_of_unique[OF i this] have ri: "r = i" .
    have "l ! i = r" using ri True root_self.hyps(2) by simp
    then have "l[i := r] = l" by (metis list_update_id)
    with \<open>root_of l j j\<close> show ?thesis by simp
  next
    case False
    have "j < length (l[i := r])" using root_self.hyps(1) by simp
    moreover have "(l[i := r]) ! j = j" using False root_self.hyps(2) by simp
    ultimately show ?thesis by (rule root_of.root_self)
  qed
next
  case (root_up j r')
  show ?case
  proof (cases "j = i")
    case True
    from root_up.hyps have "root_of l j r'" by (rule root_of.root_up)
    with True have "root_of l i r'" by simp
    from root_of_unique[OF i this] have rr: "r = r'" .
    from root_of_bounds[OF i] have rb: "r < length l" "l ! r = r" by simp_all
    have ri: "r \<noteq> i" using rb(2) root_up.hyps(2) True by auto
    have "r < length (l[i := r])" using rb(1) by simp
    moreover have "(l[i := r]) ! r = r" using ri rb(2) by simp
    ultimately have rroot: "root_of (l[i := r]) r r" by (rule root_of.root_self)
    have "i < length (l[i := r])" using root_up.hyps(1) True by simp
    moreover have "(l[i := r]) ! i \<noteq> i" using ri root_up.hyps(1) True by simp
    moreover have "root_of (l[i := r]) ((l[i := r]) ! i) r"
      using rroot root_up.hyps(1) True by simp
    ultimately have "root_of (l[i := r]) i r" by (rule root_of.root_up)
    with True rr show ?thesis by simp
  next
    case False
    have "j < length (l[i := r])" using root_up.hyps(1) by simp
    moreover have "(l[i := r]) ! j \<noteq> j" using False root_up.hyps(2) by simp
    moreover have "root_of (l[i := r]) ((l[i := r]) ! j) r'"
      using False root_up.IH by simp
    ultimately show ?thesis by (rule root_of.root_up)
  qed
qed

text \<open>Linking the root \<open>a\<close> below the root \<open>b\<close>.\<close>

lemma root_of_link:
  assumes a: "root_of l a a" and b: "root_of l b b" and ab: "a \<noteq> b"
  shows "root_of l j r \<Longrightarrow> root_of (l[a := b]) j (if r = a then b else r)"
proof (induction rule: root_of.induct)
  case (root_self j)
  from root_of_bounds[OF a] root_of_bounds[OF b] have
    al: "a < length l" and bl: "b < length l" "l ! b = b" by simp_all
  show ?case
  proof (cases "j = a")
    case True
    have "b < length (l[a := b])" using bl(1) by simp
    moreover have "(l[a := b]) ! b = b" using bl(2) ab by simp
    ultimately have broot: "root_of (l[a := b]) b b" by (rule root_of.root_self)
    have "a < length (l[a := b])" using al by simp
    moreover have "(l[a := b]) ! a \<noteq> a" using al ab by simp
    moreover have "root_of (l[a := b]) ((l[a := b]) ! a) b" using broot al by simp
    ultimately have "root_of (l[a := b]) a b" by (rule root_of.root_up)
    with True show ?thesis by simp
  next
    case False
    have "j < length (l[a := b])" using root_self.hyps(1) by simp
    moreover have "(l[a := b]) ! j = j" using False root_self.hyps(2) by simp
    ultimately have "root_of (l[a := b]) j j" by (rule root_of.root_self)
    with False show ?thesis by simp
  qed
next
  case (root_up j r)
  from root_of_bounds[OF a] have "l ! a = a" by simp
  with root_up.hyps(2) have ja: "j \<noteq> a" by auto
  have "j < length (l[a := b])" using root_up.hyps(1) by simp
  moreover have "(l[a := b]) ! j \<noteq> j" using ja root_up.hyps(2) by simp
  moreover have "root_of (l[a := b]) ((l[a := b]) ! j) (if r = a then b else r)"
    using ja root_up.IH by simp
  ultimately show ?case by (rule root_of.root_up)
qed

lemma find_rec_root:
  "root_of l i r \<Longrightarrow>
   \<exists>l'. find_rec l i = Some (Inr (l', r)) \<and> length l' = length l \<and>
        (\<forall>j r'. root_of l j r' \<longrightarrow> root_of l' j r')"
proof (induction rule: root_of.induct)
  case (root_self i)
  have "find_rec l i = Some (Inr (l, i))"
    using root_self.hyps by (subst find_rec.simps) simp
  then show ?case by simp
next
  case (root_up i r)
  then obtain l1 where f: "find_rec l (l ! i) = Some (Inr (l1, r))" and len: "length l1 = length l"
    and pres: "\<And>j r'. root_of l j r' \<Longrightarrow> root_of l1 j r'" by blast
  from root_up.hyps have "root_of l i r" by (rule root_of.root_up)
  then have i1: "root_of l1 i r" by (rule pres)
  have "find_rec l i = Some (Inr (l1[i := r], r))"
    using root_up.hyps(1,2) f by (subst find_rec.simps) simp
  moreover have "\<forall>j r'. root_of l j r' \<longrightarrow> root_of (l1[i := r]) j r'"
    using pres root_of_compress[OF i1] by blast
  ultimately show ?case using len by simp
qed

definition roots :: "nat list \<Rightarrow> nat set" where
  "roots l = {r. r < length l \<and> l ! r = r}"

definition same_class :: "nat list \<Rightarrow> nat \<Rightarrow> nat \<Rightarrow> bool" where
  "same_class l i j = (\<exists>r. root_of l i r \<and> root_of l j r)"

text \<open>\<open>maps_roots l l' m\<close>: an element with root \<open>r\<close> in \<open>l\<close> has root \<open>m r\<close> in \<open>l'\<close>.\<close>

definition maps_roots :: "nat list \<Rightarrow> nat list \<Rightarrow> (nat \<Rightarrow> nat) \<Rightarrow> bool" where
  "maps_roots l l' m = (length l' = length l \<and> (\<forall>j r. root_of l j r \<longrightarrow> root_of l' j (m r)))"

lemma roots_iff: "r \<in> roots l \<longleftrightarrow> root_of l r r"
  using root_of_bounds[of l r r] root_self[of r l] by (auto simp: roots_def)

lemma finite_roots: "finite (roots l)"
  by (simp add: roots_def)

lemma maps_roots_invar:
  assumes "uf_invar l" "maps_roots l l' m"
  shows "uf_invar l'"
  unfolding uf_invar_def
proof (intro allI impI)
  fix i assume "i < length l'"
  with assms(2) have "i < length l" by (simp add: maps_roots_def)
  with assms(1) obtain r where "root_of l i r" by (auto simp: uf_invar_def)
  with assms(2) have "root_of l' i (m r)" by (simp add: maps_roots_def)
  then show "\<exists>r. root_of l' i r" ..
qed

lemma maps_roots_same:
  assumes "maps_roots l l' m" "same_class l i j"
  shows "same_class l' i j"
proof -
  from assms(2) obtain r where "root_of l i r" "root_of l j r" by (auto simp: same_class_def)
  with assms(1) have "root_of l' i (m r)" "root_of l' j (m r)" by (simp_all add: maps_roots_def)
  then show ?thesis unfolding same_class_def by blast
qed

lemma maps_roots_roots:
  assumes inv: "uf_invar l" and mr: "maps_roots l l' m"
  shows "roots l' = m ` roots l"
proof (intro set_eqI iffI)
  fix r assume "r \<in> roots l'"
  then have rr: "root_of l' r r" by (simp add: roots_iff)
  with mr have "r < length l" using root_of_bounds[OF rr] by (simp add: maps_roots_def)
  with inv obtain r0 where r0: "root_of l r r0" by (auto simp: uf_invar_def)
  with mr have "root_of l' r (m r0)" by (simp add: maps_roots_def)
  from root_of_unique[OF rr this] have "r = m r0" .
  moreover from root_of_root[OF r0] have "r0 \<in> roots l" by (simp add: roots_iff)
  ultimately show "r \<in> m ` roots l" by blast
next
  fix r assume "r \<in> m ` roots l"
  then obtain r0 where "r = m r0" "root_of l r0 r0" by (auto simp: roots_iff)
  with mr have "root_of l' r0 r" by (simp add: maps_roots_def)
  from root_of_root[OF this] show "r \<in> roots l'" by (simp add: roots_iff)
qed

lemma maps_roots_id_iff:
  assumes inv: "uf_invar l" and mr: "maps_roots l l' (\<lambda>r. r)"
  shows "root_of l' j r \<longleftrightarrow> root_of l j r"
proof
  assume a: "root_of l' j r"
  with mr have "j < length l" using root_of_bounds[OF a] by (simp add: maps_roots_def)
  with inv obtain r0 where r0: "root_of l j r0" by (auto simp: uf_invar_def)
  with mr have "root_of l' j r0" by (simp add: maps_roots_def)
  from root_of_unique[OF a this] r0 show "root_of l j r" by simp
next
  assume "root_of l j r"
  with mr show "root_of l' j r" by (simp add: maps_roots_def)
qed

lemma maps_roots_trans:
  "maps_roots l l' m \<Longrightarrow> maps_roots l' l'' m' \<Longrightarrow> maps_roots l l'' (m' \<circ> m)"
  by (auto simp: maps_roots_def)

lemma find_uf_root:
  assumes "root_of (uf_parent uf) a r"
  shows "\<exists>uf'. find_uf uf a = Some (Inr (uf', r)) \<and> uf_rank uf' = uf_rank uf \<and>
           maps_roots (uf_parent uf) (uf_parent uf') (\<lambda>r. r)"
proof -
  from find_rec_root[OF assms] obtain l' where
    "find_rec (uf_parent uf) a = Some (Inr (l', r))" "length l' = length (uf_parent uf)"
    "\<forall>j r'. root_of (uf_parent uf) j r' \<longrightarrow> root_of l' j r'" by blast
  then show ?thesis
    by (intro exI[of _ "uf\<lparr>uf_parent := l'\<rparr>"]) (simp add: find_uf_def maps_roots_def)
qed

lemma unite_link:
  assumes inv: "uf_invar (uf_parent uf)"
    and a: "root_of (uf_parent uf) a ra" and b: "root_of (uf_parent uf) b rb"
    and ne: "ra \<noteq> rb"
  shows "\<exists>uf' x y. unite uf a b = Some (Inr uf') \<and> x \<in> roots (uf_parent uf) \<and>
           y \<in> roots (uf_parent uf) \<and> x \<noteq> y \<and> {x, y} = {ra, rb} \<and>
           maps_roots (uf_parent uf) (uf_parent uf') (\<lambda>r. if r = x then y else r)"
proof -
  let ?l = "uf_parent uf"
  from find_uf_root[OF a] obtain uf1 where
    f1: "find_uf uf a = Some (Inr (uf1, ra))" and m1: "maps_roots ?l (uf_parent uf1) (\<lambda>r. r)"
    by blast
  from m1 b have "root_of (uf_parent uf1) b rb" by (simp add: maps_roots_def)
  from find_uf_root[OF this] obtain uf2 where
    f2: "find_uf uf1 b = Some (Inr (uf2, rb))" and m2: "maps_roots (uf_parent uf1) (uf_parent uf2) (\<lambda>r. r)"
    by blast
  let ?l2 = "uf_parent uf2"
  from maps_roots_trans[OF m1 m2] have m12: "maps_roots ?l ?l2 (\<lambda>r. r)" by (simp add: comp_def)
  from root_of_root[OF a] root_of_root[OF b] have ra: "root_of ?l ra ra" and rb: "root_of ?l rb rb" .
  with m12 have ra2: "root_of ?l2 ra ra" and rb2: "root_of ?l2 rb rb" by (simp_all add: maps_roots_def)
  have link: "maps_roots ?l (?l2[x := y]) (\<lambda>r. if r = x then y else r)"
    if xy: "root_of ?l2 x x" "root_of ?l2 y y" "x \<noteq> y" for x y
    unfolding maps_roots_def
  proof (intro conjI allI impI)
    show "length (?l2[x := y]) = length ?l" using m12 by (simp add: maps_roots_def)
    fix j r assume "root_of ?l j r"
    with m12 have "root_of ?l2 j r" by (simp add: maps_roots_def)
    from root_of_link[OF xy this] show "root_of (?l2[x := y]) j (if r = x then y else r)" .
  qed
  from ra rb have rts: "ra \<in> roots ?l" "rb \<in> roots ?l" by (simp_all add: roots_iff)
  consider (lt) "uf_rank uf2 ! ra < uf_rank uf2 ! rb"
    | (gt) "uf_rank uf2 ! ra > uf_rank uf2 ! rb"
    | (eq) "uf_rank uf2 ! ra = uf_rank uf2 ! rb" by linarith
  then show ?thesis
  proof cases
    case lt
    have "unite uf a b = Some (Inr (uf2\<lparr>uf_parent := ?l2[ra := rb]\<rparr>))"
      using f1 f2 ne lt by (simp add: unite_def)
    with link[OF ra2 rb2 ne] rts ne show ?thesis
      by (intro exI[of _ "uf2\<lparr>uf_parent := ?l2[ra := rb]\<rparr>"] exI[of _ ra] exI[of _ rb]) simp
  next
    case gt
    have "unite uf a b = Some (Inr (uf2\<lparr>uf_parent := ?l2[rb := ra]\<rparr>))"
      using f1 f2 ne gt by (simp add: unite_def)
    with link[OF rb2 ra2 ne[symmetric]] rts ne show ?thesis
      by (intro exI[of _ "uf2\<lparr>uf_parent := ?l2[rb := ra]\<rparr>"] exI[of _ rb] exI[of _ ra]) auto
  next
    case eq
    have "unite uf a b = Some (Inr (uf2\<lparr>uf_parent := ?l2[rb := ra],
                              uf_rank := (uf_rank uf2)[ra := uf_rank uf2 ! ra + 1]\<rparr>))"
      using f1 f2 ne eq by (simp add: unite_def)
    with link[OF rb2 ra2 ne[symmetric]] rts ne show ?thesis
      by (intro exI[of _ "uf2\<lparr>uf_parent := ?l2[rb := ra],
                              uf_rank := (uf_rank uf2)[ra := uf_rank uf2 ! ra + 1]\<rparr>"]
            exI[of _ rb] exI[of _ ra]) auto
  qed
qed

lemma link_roots_card:
  assumes inv: "uf_invar l" and mr: "maps_roots l l' (\<lambda>r. if r = x then y else r)"
    and x: "x \<in> roots l" and y: "y \<in> roots l" and xy: "x \<noteq> y"
  shows "card (roots l') + 1 = card (roots l)"
proof -
  from maps_roots_roots[OF inv mr] have "roots l' = (\<lambda>r. if r = x then y else r) ` roots l" .
  also have "\<dots> = roots l - {x}" using x y xy by auto
  finally have "roots l' = roots l - {x}" .
  then have "card (roots l') = card (roots l) - 1" using x finite_roots by simp
  moreover have "0 < card (roots l)" using x finite_roots[of l] by (auto simp: card_gt_0_iff)
  ultimately show ?thesis by simp
qed

section \<open>kruskal: the loop over the sorted edges\<close>

lemma same_class_sym: "same_class l i j \<Longrightarrow> same_class l j i"
  by (auto simp: same_class_def)

lemma same_class_trans: "same_class l i j \<Longrightarrow> same_class l j k \<Longrightarrow> same_class l i k"
  unfolding same_class_def using root_of_unique by blast

lemma kruskal_loop_ok:
  assumes "uf_invar (uf_parent uf)" "length (uf_parent uf) = n" "graph_edges tree tes"
    "numVertices tree = n" "\<forall>e \<in> set es. fst (snd e) < n \<and> snd (snd e) < n"
  shows "\<exists>tree' uf' tes'.
           kruskal_loop es (tree, uf) = Some (Inr (tree', uf')) \<and>
           uf_invar (uf_parent uf') \<and> length (uf_parent uf') = n \<and>
           graph_edges tree' tes' \<and> numVertices tree' = n \<and>
           length tes' + card (roots (uf_parent uf')) = length tes + card (roots (uf_parent uf)) \<and>
           (\<forall>e \<in> set es. same_class (uf_parent uf') (fst (snd e)) (snd (snd e))) \<and>
           (\<forall>i j. same_class (uf_parent uf) i j \<longrightarrow> same_class (uf_parent uf') i j)"
  using assms
proof (induction es arbitrary: tree uf tes)
  case Nil
  then show ?case by auto
next
  case (Cons e es)
  obtain w u v where e: "e = (w, u, v)" by (cases e) auto
  let ?l = "uf_parent uf"
  from Cons.prems(5) e have un: "u < n" and vn: "v < n"
    and rest: "\<forall>e \<in> set es. fst (snd e) < n \<and> snd (snd e) < n" by auto
  from Cons.prems(1,2) un have "\<exists>r. root_of ?l u r" by (simp add: uf_invar_def)
  then obtain ru where ru: "root_of ?l u ru" ..
  from Cons.prems(1,2) vn have "\<exists>r. root_of ?l v r" by (simp add: uf_invar_def)
  then obtain rv where rv: "root_of ?l v rv" ..
  from find_uf_root[OF ru] obtain uf1 where
    f1: "find_uf uf u = Some (Inr (uf1, ru))" and m1: "maps_roots ?l (uf_parent uf1) (\<lambda>r. r)"
    by blast
  from m1 rv have "root_of (uf_parent uf1) v rv" by (simp add: maps_roots_def)
  from find_uf_root[OF this] obtain uf2 where
    f2: "find_uf uf1 v = Some (Inr (uf2, rv))"
    and m2: "maps_roots (uf_parent uf1) (uf_parent uf2) (\<lambda>r. r)" by blast
  let ?l2 = "uf_parent uf2"
  from maps_roots_trans[OF m1 m2] have m12: "maps_roots ?l ?l2 (\<lambda>r. r)" by (simp add: comp_def)
  from maps_roots_invar[OF Cons.prems(1) m12] have inv2: "uf_invar ?l2" .
  from m12 Cons.prems(2) have len2: "length ?l2 = n" by (simp add: maps_roots_def)
  from maps_roots_roots[OF Cons.prems(1) m12] have r2: "roots ?l2 = roots ?l" by simp
  from m12 ru rv have ru2: "root_of ?l2 u ru" and rv2: "root_of ?l2 v rv"
    by (simp_all add: maps_roots_def)
  show ?case
  proof (cases "ru = rv")
    case True
    from Cons.IH[OF inv2 len2 Cons.prems(3,4) rest] obtain tree' uf' tes' where
      IH: "kruskal_loop es (tree, uf2) = Some (Inr (tree', uf'))"
      "uf_invar (uf_parent uf')" "length (uf_parent uf') = n"
      "graph_edges tree' tes'" "numVertices tree' = n"
      "length tes' + card (roots (uf_parent uf')) = length tes + card (roots ?l2)"
      "\<forall>e \<in> set es. same_class (uf_parent uf') (fst (snd e)) (snd (snd e))"
      "\<forall>i j. same_class ?l2 i j \<longrightarrow> same_class (uf_parent uf') i j" by blast
    have run: "kruskal_loop (e # es) (tree, uf) = Some (Inr (tree', uf'))"
      using f1 f2 True IH(1) by (simp add: e)
    have "same_class ?l2 u v" using ru2 rv2 True by (auto simp: same_class_def)
    with IH(8) have uv: "same_class (uf_parent uf') u v" by blast
    have mono: "\<forall>i j. same_class ?l i j \<longrightarrow> same_class (uf_parent uf') i j"
      using maps_roots_same[OF m12] IH(8) by blast
    from run IH(2-5) IH(6)[unfolded r2] IH(7) uv mono show ?thesis
      by (intro exI[of _ tree'] exI[of _ uf'] exI[of _ tes']) (simp add: e)
  next
    case False
    obtain tree1 where add: "addEdge tree (int u) (int v) w = Inr tree1"
      and tn1: "numVertices tree1 = n"
      using un vn Cons.prems(4) by (auto simp: addEdge_def Let_def)
    from graph_edges_addEdge[OF Cons.prems(3) add]
    have ge1: "graph_edges tree1 ((u, v, w) # tes)" by simp
    from unite_link[OF inv2 ru2 rv2 False] obtain uf3 x y where
      un3: "unite uf2 u v = Some (Inr uf3)"
      and x: "x \<in> roots ?l2" and y: "y \<in> roots ?l2" and xy: "x \<noteq> y"
      and xyr: "{x, y} = {ru, rv}"
      and m3: "maps_roots ?l2 (uf_parent uf3) (\<lambda>r. if r = x then y else r)" by blast
    let ?l3 = "uf_parent uf3"
    from maps_roots_invar[OF inv2 m3] have inv3: "uf_invar ?l3" .
    from m3 len2 have len3: "length ?l3 = n" by (simp add: maps_roots_def)
    from link_roots_card[OF inv2 m3 x y xy] r2
    have card3: "card (roots ?l3) + 1 = card (roots ?l)" by simp
    from Cons.IH[OF inv3 len3 ge1 tn1 rest] obtain tree' uf' tes' where
      IH: "kruskal_loop es (tree1, uf3) = Some (Inr (tree', uf'))"
      "uf_invar (uf_parent uf')" "length (uf_parent uf') = n"
      "graph_edges tree' tes'" "numVertices tree' = n"
      "length tes' + card (roots (uf_parent uf')) = length ((u, v, w) # tes) + card (roots ?l3)"
      "\<forall>e \<in> set es. same_class (uf_parent uf') (fst (snd e)) (snd (snd e))"
      "\<forall>i j. same_class ?l3 i j \<longrightarrow> same_class (uf_parent uf') i j" by blast
    have run: "kruskal_loop (e # es) (tree, uf) = Some (Inr (tree', uf'))"
      using f1 f2 False add un3 IH(1) by (simp add: e)
    from m3 ru2 rv2 have "root_of ?l3 u (if ru = x then y else ru)"
      "root_of ?l3 v (if rv = x then y else rv)" by (simp_all add: maps_roots_def)
    moreover have "(if ru = x then y else ru) = (if rv = x then y else rv)"
      using xyr xy False by (auto simp: doubleton_eq_iff)
    ultimately have "same_class ?l3 u v" by (auto simp: same_class_def)
    with IH(8) have uv: "same_class (uf_parent uf') u v" by blast
    have mono: "\<forall>i j. same_class ?l i j \<longrightarrow> same_class (uf_parent uf') i j"
      using maps_roots_same[OF m12] maps_roots_same[OF m3] IH(8) by blast
    from IH(6) card3 have cnt: "length tes' + card (roots (uf_parent uf')) = length tes + card (roots ?l)"
      by simp
    from run IH(2-5) cnt IH(7) uv mono show ?thesis
      by (intro exI[of _ tree'] exI[of _ uf'] exI[of _ tes']) (simp add: e)
  qed
qed

lemma sort_inner_mset:
  "i < length edges \<Longrightarrow> \<forall>j \<in> set js. j < length edges \<Longrightarrow>
   mset (sort_inner i js edges) = mset edges \<and> length (sort_inner i js edges) = length edges"
proof (induction i js edges rule: sort_inner.induct)
  case (1 i edges)
  then show ?case by simp
next
  case (2 i j js edges)
  from "2.prems" have j: "j < length edges" and js: "\<forall>j \<in> set js. j < length edges" by simp_all
  show ?case
  proof (cases "fst (edges ! j) < fst (edges ! i)")
    case True
    have m: "mset (swap_list edges i j) = mset edges"
      using mset_swap[of j edges i] "2.prems"(1) j by (simp add: swap_list_def)
    have l: "length (swap_list edges i j) = length edges" by simp
    from "2.IH"(1)[OF True] "2.prems"(1) js l m True show ?thesis by simp
  next
    case False
    from "2.IH"(2)[OF False "2.prems"(1) js] False show ?thesis by simp
  qed
qed

lemma sort_outer_mset:
  "\<forall>i \<in> set is. i < length edges \<Longrightarrow> mset (sort_outer is edges) = mset edges"
proof (induction "is" arbitrary: edges)
  case Nil
  then show ?case by simp
next
  case (Cons i "is")
  let ?e = "sort_inner i [i + 1..<length edges] edges"
  from Cons.prems have i: "i < length edges" by simp
  from sort_inner_mset[OF i, of "[i + 1..<length edges]"]
  have m: "mset ?e = mset edges" and l: "length ?e = length edges" by simp_all
  from Cons.prems l have "\<forall>i \<in> set is. i < length ?e" by simp
  from Cons.IH[OF this] m show ?case by simp
qed

lemma bubble_sort_mset: "mset (bubble_sort edges) = mset edges"
  unfolding bubble_sort_def by (rule sort_outer_mset) simp

subsection \<open>kruskal on a connected graph\<close>

lemma adj_of_iff:
  "(y, w) \<in> set (adj_of es v) \<longleftrightarrow> (v, y, w) \<in> set es \<or> (y, v, w) \<in> set es"
  by (induction es) auto

lemma undirected_edges_iff:
  "(w, a, b) \<in># undirected_edges (proper_edges es) \<longleftrightarrow>
   (\<exists>u v. (u, v, w) \<in> set es \<and> u \<noteq> v \<and> a = min u v \<and> b = max u v)"
proof
  assume "(w, a, b) \<in># undirected_edges (proper_edges es)"
  then show "\<exists>u v. (u, v, w) \<in> set es \<and> u \<noteq> v \<and> a = min u v \<and> b = max u v"
    by (auto simp: undirected_edges_def proper_edges_def)
next
  assume "\<exists>u v. (u, v, w) \<in> set es \<and> u \<noteq> v \<and> a = min u v \<and> b = max u v"
  then obtain u v where uv: "(u, v, w) \<in> set es" "u \<noteq> v" "a = min u v" "b = max u v" by blast
  then have "(u, v, w) \<in> set (proper_edges es)" by (simp add: proper_edges_def)
  then have "(\<lambda>(u, v, w). (w, min u v, max u v)) (u, v, w)
             \<in> (\<lambda>(u, v, w). (w, min u v, max u v)) ` set (proper_edges es)"
    by (rule imageI)
  with uv show "(w, a, b) \<in># undirected_edges (proper_edges es)"
    by (simp add: undirected_edges_def)
qed

lemma UnionFind_new_ok:
  "UnionFind_new (int n) = Inr uf \<Longrightarrow>
   uf_invar (uf_parent uf) \<and> length (uf_parent uf) = n \<and> roots (uf_parent uf) = {..<n}"
proof -
  assume "UnionFind_new (int n) = Inr uf"
  then have p: "uf_parent uf = [0..<n]" by (auto simp: UnionFind_new_def)
  have "root_of [0..<n] i i" if "i < n" for i
    using that by (intro root_self) simp_all
  then have "uf_invar [0..<n]" unfolding uf_invar_def by auto
  moreover have "roots [0..<n] = {..<n}" by (auto simp: roots_def)
  ultimately show ?thesis using p by simp
qed

lemma kruskal_edge_count:
  assumes ge: "graph_edges g es" and n0: "0 < numVertices g"
    and conn: "\<forall>v < numVertices g. \<exists>d. walk g 0 v d"
    and bound: "length (proper_edges es) \<le> 500"
  shows "\<exists>t. kruskal g = Some (Inr t) \<and> entry_count t = 2 * (numVertices g - 1)"
proof -
  let ?n = "numVertices g"
  from ge have adj: "adjacencyList g = map (adj_of es) [0..<?n]"
    and la: "list_all (\<lambda>(u, v, w). u < ?n \<and> v < ?n) es" by (auto simp: graph_edges_def)
  obtain t0 where t0: "Graph_new (int ?n) = Inr t0" and tn0: "numVertices t0 = ?n"
    by (simp add: Graph_new_def)
  from graph_edges_new[OF t0] have ge0: "graph_edges t0 []" .
  obtain uf0 where uf0: "UnionFind_new (int ?n) = Inr uf0" by (simp add: UnionFind_new_def)
  from UnionFind_new_ok[OF uf0] have inv0: "uf_invar (uf_parent uf0)"
    and len0: "length (uf_parent uf0) = ?n" and r0: "roots (uf_parent uf0) = {..<?n}" by simp_all
  from collect_edges_proper[OF ge bound] obtain edges where
    col: "collect_edges g [0..<?n] [] = Inr edges"
    and me: "mset edges = undirected_edges (proper_edges es)" by blast
  let ?s = "bubble_sort edges"
  have ms: "mset ?s = undirected_edges (proper_edges es)" using bubble_sort_mset me by simp
  have ins: "(w, a, b) \<in> set ?s \<longleftrightarrow>
       (\<exists>u v. (u, v, w) \<in> set es \<and> u \<noteq> v \<and> a = min u v \<and> b = max u v)" for w a b
    using undirected_edges_iff[of w a b es] ms by (metis set_mset_mset)
  have val: "\<forall>e \<in> set ?s. fst (snd e) < ?n \<and> snd (snd e) < ?n"
  proof
    fix e assume e: "e \<in> set ?s"
    obtain w a b where eq: "e = (w, a, b)" by (cases e) auto
    with e ins obtain u v where "(u, v, w) \<in> set es" "a = min u v" "b = max u v" by blast
    with la have "a < ?n" "b < ?n" by (auto simp: list_all_iff min_def max_def)
    with eq show "fst (snd e) < ?n \<and> snd (snd e) < ?n" by simp
  qed
  from kruskal_loop_ok[OF inv0 len0 ge0 tn0 val] obtain tree' uf' tes' where
    loop: "kruskal_loop ?s (t0, uf0) = Some (Inr (tree', uf'))"
    and inv': "uf_invar (uf_parent uf')" and len': "length (uf_parent uf') = ?n"
    and ge': "graph_edges tree' tes'"
    and cnt: "length tes' + card (roots (uf_parent uf')) = length ([]::(nat \<times> nat \<times> int) list) + card (roots (uf_parent uf0))"
    and sc: "\<forall>e \<in> set ?s. same_class (uf_parent uf') (fst (snd e)) (snd (snd e))"
    by blast
  let ?l = "uf_parent uf'"
  have run: "kruskal g = Some (Inr tree')"
    using t0 uf0 col loop by (simp add: kruskal_def Let_def getVertexCount_def)
  have refl: "same_class ?l v v" if "v < ?n" for v
    using inv' len' that by (auto simp: uf_invar_def same_class_def)
  have edge: "same_class ?l v y" if v: "v < ?n" and e: "(y, w) \<in> set (adjacencyList g ! v)" for v y w
  proof (cases "y = v")
    case True
    with refl[OF v] show ?thesis by simp
  next
    case False
    from e v adj have "(y, w) \<in> set (adj_of es v)" by simp
    then have "(v, y, w) \<in> set es \<or> (y, v, w) \<in> set es" by (simp add: adj_of_iff)
    then have "(w, min v y, max v y) \<in> set ?s"
    proof
      assume "(v, y, w) \<in> set es"
      with False have "\<exists>u va. (u, va, w) \<in> set es \<and> u \<noteq> va \<and> min v y = min u va \<and> max v y = max u va"
        by (intro exI[of _ v] exI[of _ y]) simp
      then show ?thesis by (simp add: ins)
    next
      assume "(y, v, w) \<in> set es"
      with False have "\<exists>u va. (u, va, w) \<in> set es \<and> u \<noteq> va \<and> min v y = min u va \<and> max v y = max u va"
        by (intro exI[of _ y] exI[of _ v]) (simp add: min.commute max.commute)
      then show ?thesis by (simp add: ins)
    qed
    with sc have "same_class ?l (min v y) (max v y)" by fastforce
    then show ?thesis
      by (cases "v \<le> y") (auto simp: min_def max_def intro: same_class_sym)
  qed
  have W: "walk g 0 v d \<Longrightarrow> v < ?n \<and> same_class ?l 0 v" for v d
  proof (induction rule: walk.induct)
    case walk_refl
    then show ?case using n0 refl[OF n0] by simp
  next
    case (walk_step v d e)
    then have v: "v < ?n" and s: "same_class ?l 0 v" by simp_all
    obtain y w where eq: "e = (y, w)" by (cases e) auto
    from walk_step.hyps(2) eq have ein: "(y, w) \<in> set (adjacencyList g ! v)" by simp
    from edge[OF v ein] s have "same_class ?l 0 y" by (rule same_class_trans[rotated])
    moreover from ein v adj have "(y, w) \<in> set (adj_of es v)" by simp
    then have "y < ?n" using la by (auto simp: adj_of_iff list_all_iff)
    ultimately show ?case using eq by simp
  qed
  from refl[OF n0] obtain r where r: "root_of ?l 0 r" by (auto simp: same_class_def)
  have "roots ?l = {r}"
  proof (intro set_eqI iffI)
    fix x assume "x \<in> roots ?l"
    then have xx: "root_of ?l x x" by (simp add: roots_iff)
    then have "x < ?n" using root_of_bounds[OF xx] len' by simp
    with conn obtain d where "walk g 0 x d" by blast
    from W[OF this] obtain r' where "root_of ?l 0 r'" "root_of ?l x r'"
      by (auto simp: same_class_def)
    with r xx have "x = r" using root_of_unique by blast
    then show "x \<in> {r}" by simp
  next
    fix x assume "x \<in> {r}"
    with root_of_root[OF r] show "x \<in> roots ?l" by (simp add: roots_iff)
  qed
  with cnt r0 have "length tes' + 1 = ?n" by simp
  with entry_count_graph_edges[OF ge'] have "entry_count tree' = 2 * (?n - 1)" by simp
  with run show ?thesis by blast
qed

section \<open>dijkstra, prim and kruskal: the number of edges returned\<close>

text \<open>
  A graph built by \<open>addEdge\<close> stores every edge in both directions, so it is connected
  when every vertex is reached from vertex 0.
\<close>

definition connected :: "Graph \<Rightarrow> bool" where
  "connected g = (\<forall>v < numVertices g. \<exists>d. walk g 0 v d)"

lemma walks_hub5:
  "walk hub5 0 1 1" "walk hub5 0 2 10" "walk hub5 0 3 10" "walk hub5 0 4 10"
proof -
  have w0: "walk hub5 0 0 0" by (rule walk_refl)
  have w: "walk hub5 0 v d" if "(v, d) \<in> set (adjacencyList hub5 ! 0)" for v d
  proof -
    from w0 that have "walk hub5 0 (fst (v, d)) (0 + snd (v, d))" by (rule walk_step)
    then show ?thesis by simp
  qed
  show "walk hub5 0 1 1" "walk hub5 0 2 10" "walk hub5 0 3 10" "walk hub5 0 4 10"
    by (rule w, simp add: hub5_def)+
qed

lemma connected_hub5: "connected hub5"
proof -
  have "\<exists>d. walk hub5 0 v d" if "v < 5" for v
  proof -
    from that have "v = 0 \<or> v = 1 \<or> v = 2 \<or> v = 3 \<or> v = 4" by auto
    with walk_refl[of hub5 0] walks_hub5 show ?thesis by blast
  qed
  then show ?thesis by (simp add: connected_def hub5_def)
qed

lemma kruskal_hub5:
  "kruskal hub5 =
     Some (Inr \<lparr>numVertices = 5,
       adjacencyList = [[(1, 1)], [(2, 1), (3, 1), (4, 1), (0, 1)], [(1, 1)], [(1, 1)], [(1, 1)]]\<rparr>)"
  by code_simp

text \<open>
  C1. The graph \<open>hub5\<close> has five vertices and non-negative weights and is connected:
  each of the vertices 1, 2, 3, 4 is a neighbour of vertex 0. So each algorithm should
  return a tree of four undirected edges, eight entries of the neighbour lists.
  \<open>kruskal\<close> does. \<open>dijkstra\<close> from vertex 0 and \<open>prim\<close> return no graph:
  both create the priority queue with capacity \<open>n\<close> and insert a vertex again each time
  its distance or key improves, and on \<open>hub5\<close> the third improvement found while scanning
  the neighbours of vertex 1 meets a queue that holds five elements already, so \<open>insert\<close>
  throws "Priority Queue is full".
\<close>

theorem queue_full_on_connected_graph:
  "graph_of_edges 5
     [(0, 1, 1), (0, 2, 10), (0, 3, 10), (0, 4, 10), (1, 2, 1), (1, 3, 1), (1, 4, 1)] = Inr hub5 \<and>
   wf_graph hub5 \<and> nonneg_weights hub5 \<and> numVertices hub5 = 5 \<and>
   walk hub5 0 1 1 \<and> walk hub5 0 2 10 \<and> walk hub5 0 3 10 \<and> walk hub5 0 4 10 \<and>
   dijkstra hub5 0 = Inl (GraphException PQ_is_full) \<and>
   prim hub5 = Inl (GraphException PQ_is_full) \<and>
   (\<exists>t. kruskal hub5 = Some (Inr t) \<and> entry_count t = 2 * (numVertices hub5 - 1))"
proof -
  have n: "numVertices hub5 = 5" by (simp add: hub5_def)
  have "\<exists>t. kruskal hub5 = Some (Inr t) \<and> entry_count t = 2 * (numVertices hub5 - 1)"
    unfolding kruskal_hub5 n by (simp add: entry_count_def)
  with hub5_built wf_hub5 nonneg_hub5 walks_hub5 n dijkstra_hub5 prim_hub5
  show ?thesis by blast
qed

subsection \<open>An edge as heavy as the initial distance\<close>

text \<open>
  \<open>dist\<close> and \<open>key\<close> start at \<open>INT_MAX\<close> and the tests \<open>dist[u] + w < dist[v]\<close> and
  \<open>w < key[v]\<close> are strict. On the connected graph made by \<open>addEdge(0, 1, 2147483647)\<close>
  both tests are false, and \<open>dijkstra\<close> and \<open>prim\<close> return a graph with no edge.
\<close>

definition heavy2 :: Graph where
  "heavy2 = \<lparr>numVertices = 2, adjacencyList = [[(1, 2147483647)], [(0, 2147483647)]]\<rparr>"

lemma heavy2_built: "graph_of_edges 2 [(0, 1, 2147483647)] = Inr heavy2"
  by code_simp

lemma heavy2_connected: "connected heavy2"
proof -
  have "walk heavy2 0 0 0" by (rule walk_refl)
  moreover from this have "walk heavy2 0 (fst (1::nat, 2147483647::int)) (0 + snd (1::nat, 2147483647::int))"
    by (rule walk_step) (simp add: heavy2_def)
  then have "walk heavy2 0 1 2147483647" by simp
  ultimately have "\<exists>d. walk heavy2 0 v d" if "v < 2" for v
    using that by (cases "v = 0") (auto simp: less_2_cases_iff)
  then show ?thesis by (simp add: connected_def heavy2_def)
qed

lemma dijkstra_heavy2: "dijkstra heavy2 0 = Inr \<lparr>numVertices = 2, adjacencyList = [[], []]\<rparr>"
  by code_simp

lemma prim_heavy2: "prim heavy2 = Inr \<lparr>numVertices = 2, adjacencyList = [[], []]\<rparr>"
  by code_simp

end
